theory Spec2Isabelle
  imports Main "HOL-Library.Char_ord" "HOL-Library.List_Lexorder"
begin

section \<open>Query conversion of psycopg: \<^verbatim>\<open>psycopg/_queries.py\<close>\<close>

subsection \<open>Data model\<close>

text \<open>
  Python \<^verbatim>\<open>bytes\<close> are lists of \<^typ>\<open>char\<close> (a \<^typ>\<open>char\<close> is one byte). Python
  \<^verbatim>\<open>str\<close> values (placeholder names, decoded fragments for error messages) are kept
  in a type of their own name, \<open>pystr\<close>, compared and sorted character by character.
\<close>

type_synonym bytes = string
type_synonym pystr = string

text \<open>
  The \<^verbatim>\<open>encoding\<close> argument names a codec. The model takes the codec itself: what
  \<^verbatim>\<open>bytes.decode(encoding)\<close> and \<^verbatim>\<open>str.encode(encoding)\<close> return, \<open>None\<close> where Python
  raises \<^verbatim>\<open>UnicodeDecodeError\<close> or \<^verbatim>\<open>UnicodeEncodeError\<close>.
\<close>

datatype codec =
  Codec (codec_name: pystr) (decode_bytes: "bytes \<Rightarrow> pystr option")
    (encode_str: "pystr \<Rightarrow> bytes option")

definition is_ascii :: "char \<Rightarrow> bool" where
  "is_ascii c = ((of_char c :: nat) < 128)"

definition ascii :: codec where
  "ascii = Codec ''ascii'' (\<lambda>b. if list_all is_ascii b then Some b else None)
                 (\<lambda>s. if list_all is_ascii s then Some s else None)"

text \<open>\<^verbatim>\<open>PyFormat\<close> of \<^verbatim>\<open>_enums.py\<close>, as the three members the module uses.\<close>

datatype PyFormat = AUTO | TEXT | BINARY

text \<open>The \<^verbatim>\<open>item\<close> of a part is \<^verbatim>\<open>int | str\<close>.\<close>

datatype pyitem = Index nat | Name pystr

datatype pytype = IntT | StrT

fun type_of :: "pyitem \<Rightarrow> pytype" where
  "type_of (Index _) = IntT"
| "type_of (Name _) = StrT"

datatype QueryPart = QueryPart (pre: bytes) (item: pyitem) (format: PyFormat)

text \<open>
  Every \<^verbatim>\<open>raise\<close> of the module, and the exceptions of the Python operations it uses, as
  values. The payload is what the message is formatted from:
  \<^item> \<open>IncompletePlaceholder s\<close>: ProgrammingError \<^verbatim>\<open>incomplete placeholder: 's'\<close>;
  \<^item> \<open>IncompletePercent\<close>: ProgrammingError \<^verbatim>\<open>incomplete placeholder: '%'; if you want to
    use '%' as an operator you can double it up, i.e. use '%%'\<close>;
  \<^item> \<open>UnsupportedPlaceholder s\<close>: ProgrammingError \<^verbatim>\<open>only '%s', '%b', '%t' are allowed as
    placeholders, got 's'\<close>;
  \<^item> \<open>MixedPlaceholders\<close>: ProgrammingError \<^verbatim>\<open>positional and named placeholders cannot be
    mixed\<close>;
  \<^item> \<open>DifferentFormats n\<close>: ProgrammingError \<^verbatim>\<open>placeholder 'n' cannot have different
    formats\<close>;
  \<^item> \<open>CountMismatch p n\<close>: ProgrammingError \<^verbatim>\<open>the query has p placeholders but n
    parameters were passed\<close>;
  \<^item> \<open>MissingParams ns\<close>: ProgrammingError \<^verbatim>\<open>query parameter missing: \<close> followed by
    \<open>ns\<close> joined with \<^verbatim>\<open>, \<close>;
  \<^item> \<open>NamedRequireMapping\<close>: TypeError \<^verbatim>\<open>named placeholders require a mapping of
    parameters\<close>;
  \<^item> \<open>PositionalRequireSequence\<close>: TypeError \<^verbatim>\<open>positional placeholders (%s) require a
    sequence of parameters\<close>;
  \<^item> \<open>NotSequenceOrMapping t\<close>: TypeError \<^verbatim>\<open>query parameters should be a sequence or a
    mapping, got t\<close>;
  \<^item> \<open>NoLen t\<close>: the TypeError of \<^verbatim>\<open>len()\<close> on an object of type \<open>t\<close> that has none;
  \<^item> \<open>FormatNotEnoughArguments\<close>, \<open>FormatNotAllConverted\<close>, \<open>FormatUnsupported\<close>: the
    TypeError and ValueError of the \<^verbatim>\<open>%\<close> operator of \<^verbatim>\<open>bytes\<close>;
  \<^item> \<open>ExternalError s\<close>: whatever the transformer raises.
\<close>

datatype error =
    IncompletePlaceholder pystr
  | IncompletePercent
  | UnsupportedPlaceholder pystr
  | MixedPlaceholders
  | DifferentFormats pystr
  | CountMismatch int int
  | MissingParams "pystr list"
  | NamedRequireMapping
  | PositionalRequireSequence
  | NotSequenceOrMapping pystr
  | NoLen pystr
  | UnicodeDecodeError
  | UnicodeEncodeError
  | IndexError
  | KeyError
  | AssertionError
  | AttributeError
  | FormatNotEnoughArguments
  | FormatNotAllConverted
  | FormatUnsupported
  | ExternalError pystr

definition decode :: "codec \<Rightarrow> bytes \<Rightarrow> error + pystr" where
  "decode enc b = (case decode_bytes enc b of None \<Rightarrow> Inl UnicodeDecodeError | Some s \<Rightarrow> Inr s)"

definition encode :: "codec \<Rightarrow> pystr \<Rightarrow> error + bytes" where
  "encode enc s = (case encode_str enc s of None \<Rightarrow> Inl UnicodeEncodeError | Some b \<Rightarrow> Inr b)"

subsection \<open>The placeholder pattern\<close>

text \<open>
  \<^verbatim>\<open>_re_placeholder\<close> is \<^verbatim>\<open>% (?: (?: \( ([^)]+) \) . ) | (?:.) )\<close>, compiled without
  DOTALL: \<^verbatim>\<open>.\<close> is any byte but the newline. A match object is its span, group 0 and
  group 1.
\<close>

datatype rematch = Match (span_start: nat) (span_end: nat) (group0: bytes) (group1: "bytes option")

definition dot :: "char \<Rightarrow> bool" where
  "dot c = (c \<noteq> CHR 0x0A)"

definition not_rparen :: "char \<Rightarrow> bool" where
  "not_rparen c = (c \<noteq> CHR '')'')"

text \<open>
  The first alternative, tried on the bytes after the \<^verbatim>\<open>%\<close>: an opening parenthesis, the
  longest run of bytes other than \<^verbatim>\<open>)\<close> (no shorter run can be followed by \<^verbatim>\<open>)\<close>), which
  must not be empty, the closing parenthesis and one more byte. It returns the name and that
  byte.
\<close>

definition named_alt :: "bytes \<Rightarrow> (bytes \<times> char) option" where
  "named_alt r =
     (case r of
        [] \<Rightarrow> None
      | p # r' \<Rightarrow>
          if p \<noteq> CHR ''('' then None
          else
            (let name = takeWhile not_rparen r' in
             if name = [] then None
             else
               (case dropWhile not_rparen r' of
                  _ # c # _ \<Rightarrow> if dot c then Some (name, c) else None
                | _ \<Rightarrow> None)))"

text \<open>The pattern tried at the head of \<open>s\<close>: group 0 and group 1 of the match, if any.\<close>

definition re_match :: "bytes \<Rightarrow> (bytes \<times> bytes option) option" where
  "re_match s =
     (case s of
        [] \<Rightarrow> None
      | p # r \<Rightarrow>
          if p \<noteq> CHR ''%'' then None
          else
            (case named_alt r of
               Some (name, c) \<Rightarrow> Some (''%('' @ name @ '')'' @ [c], Some name)
             | None \<Rightarrow>
                 (case r of
                    [] \<Rightarrow> None
                  | c # _ \<Rightarrow> if dot c then Some ([CHR ''%'', c], None) else None)))"

lemma re_match_length: "re_match s = Some (g0, g1) \<Longrightarrow> 2 \<le> length g0"
  by (auto simp: re_match_def split: list.splits if_splits option.splits)

text \<open>
  \<^verbatim>\<open>finditer\<close>: the matches from left to right, each search starting where the previous
  match ended. \<open>pos\<close> is the offset of \<open>s\<close> in the query.
\<close>

function finditer_from :: "nat \<Rightarrow> bytes \<Rightarrow> rematch list" where
  "finditer_from pos [] = []"
| "finditer_from pos (c # r) =
     (case re_match (c # r) of
        Some (g0, g1) \<Rightarrow>
          Match pos (pos + length g0) g0 g1
            # finditer_from (pos + length g0) (drop (length g0) (c # r))
      | None \<Rightarrow> finditer_from (Suc pos) r)"
  by pat_completeness auto
termination
  by (relation "measure (\<lambda>(pos, s). length s)") (auto dest: re_match_length)

definition finditer :: "bytes \<Rightarrow> rematch list" where
  "finditer query = finditer_from 0 query"

subsection \<open>The scanner: \<^verbatim>\<open>_split_query\<close>\<close>

text \<open>
  The first loop: the fragment before each match, paired with the match, and the rest of
  the query paired with \<open>None\<close>. \<^verbatim>\<open>query[a:b]\<close> is \<open>take (b - a) (drop a query)\<close>.
\<close>

fun fragments :: "bytes \<Rightarrow> nat \<Rightarrow> rematch list \<Rightarrow> (bytes \<times> rematch option) list" where
  "fragments query cur [] = [(drop cur query, None)]"
| "fragments query cur (m # ms) =
     (take (span_start m - cur) (drop cur query), Some m) # fragments query (span_end m) ms"

text \<open>\<^verbatim>\<open>bytes.split()[0]\<close>: the first field between runs of ASCII whitespace.\<close>

definition is_space :: "char \<Rightarrow> bool" where
  "is_space c = (c \<in> set [CHR '' '', CHR 0x09, CHR 0x0A, CHR 0x0B, CHR 0x0C, CHR 0x0D])"

definition first_field :: "bytes \<Rightarrow> error + bytes" where
  "first_field s =
     (let s' = dropWhile is_space s in
      if s' = [] then Inl IndexError else Inr (takeWhile (\<lambda>c. \<not> is_space c) s'))"

text \<open>\<^verbatim>\<open>ph[-1:]\<close> and \<^verbatim>\<open>x in b"sbt"\<close> (containment of a byte string in a byte string).\<close>

definition last_slice :: "bytes \<Rightarrow> bytes" where
  "last_slice ph = (if ph = [] then [] else [last ph])"

definition in_sbt :: "bytes \<Rightarrow> bool" where
  "in_sbt x =
     (x = [] \<or> x = ''s'' \<or> x = ''b'' \<or> x = ''t'' \<or> x = ''sb'' \<or> x = ''bt'' \<or> x = ''sbt'')"

definition ph_to_fmt :: "bytes \<Rightarrow> PyFormat option" where
  "ph_to_fmt k =
     (if k = ''s'' then Some AUTO
      else if k = ''t'' then Some TEXT
      else if k = ''b'' then Some BINARY
      else None)"

text \<open>\<^verbatim>\<open>item = m.group(1).decode(encoding) if m.group(1) else i\<close>\<close>

definition item_of :: "codec \<Rightarrow> rematch \<Rightarrow> nat \<Rightarrow> error + pyitem" where
  "item_of enc m i =
     (case group1 m of
        None \<Rightarrow> Inr (Index i)
      | Some g \<Rightarrow>
          if g = [] then Inr (Index i)
          else (case decode enc g of Inl e \<Rightarrow> Inl e | Inr s \<Rightarrow> Inr (Name s)))"

text \<open>
  The second loop. The loop reads and writes \<open>parts\<close> only from index \<open>i\<close> on, so the
  model carries \<open>parts[i:]\<close>: merging an escape into \<open>parts[i + 1]\<close> and deleting \<open>parts[i]\<close>
  replaces the first two elements by one and leaves \<open>i\<close> as it is; a placeholder moves to
  \<open>i + 1\<close>. \<open>phtype\<close> is \<open>None\<close> or the type of the items seen.
\<close>

fun split_loop ::
  "codec \<Rightarrow> bool \<Rightarrow> bytes \<Rightarrow> (bytes \<times> rematch option) list \<Rightarrow> nat \<Rightarrow> pytype option
     \<Rightarrow> QueryPart list \<Rightarrow> error + QueryPart list" where
  "split_loop enc collapse query [] i phtype rv = Inr rv"
| "split_loop enc collapse query ((pre0, None) # rest) i phtype rv =
     Inr (rv @ [QueryPart pre0 (Index 0) AUTO])"
| "split_loop enc collapse query ((pre0, Some m) # rest) i phtype rv =
     (let ph = group0 m in
      if ph = ''%%'' then
        (case rest of
           [] \<Rightarrow> Inl IndexError
         | (pre1, m1) # rest' \<Rightarrow>
             split_loop enc collapse query
               ((pre0 @ (if collapse then ''%'' else ph) @ pre1, m1) # rest') i phtype rv)
      else if ph = ''%('' then
        (case first_field (drop (span_start m) query) of
           Inl e \<Rightarrow> Inl e
         | Inr f \<Rightarrow> (case decode enc f of Inl e \<Rightarrow> Inl e | Inr s \<Rightarrow> Inl (IncompletePlaceholder s)))
      else if ph = ''% '' then Inl IncompletePercent
      else if \<not> in_sbt (last_slice ph) then
        (case decode enc ph of Inl e \<Rightarrow> Inl e | Inr s \<Rightarrow> Inl (UnsupportedPlaceholder s))
      else
        (case item_of enc m i of
           Inl e \<Rightarrow> Inl e
         | Inr it \<Rightarrow>
             if phtype \<noteq> None \<and> phtype \<noteq> Some (type_of it) then Inl MixedPlaceholders
             else
               (case ph_to_fmt (last_slice ph) of
                  None \<Rightarrow> Inl KeyError
                | Some f \<Rightarrow>
                    split_loop enc collapse query rest (Suc i) (Some (type_of it))
                      (rv @ [QueryPart pre0 it f]))))"

definition split_query :: "bytes \<Rightarrow> codec \<Rightarrow> bool \<Rightarrow> error + QueryPart list" where
  "split_query query enc collapse_double_percent =
     split_loop enc collapse_double_percent query (fragments query 0 (finditer query)) 0 None []"

subsection \<open>The server-bind assembler: \<^verbatim>\<open>_query2pg_nocache\<close>\<close>

text \<open>\<^verbatim>\<open>b"$%d" % n\<close>: the dollar sign and the decimal digits of \<open>n\<close>.\<close>

definition digit_char :: "nat \<Rightarrow> char" where
  "digit_char d = ''0123456789'' ! d"

fun decimal :: "nat \<Rightarrow> bytes" where
  "decimal n = (if n < 10 then [digit_char n] else decimal (n div 10) @ [digit_char (n mod 10)])"

definition marker :: "nat \<Rightarrow> bytes" where
  "marker n = CHR ''$'' # decimal n"

text \<open>
  The loop of the positional branch over \<^verbatim>\<open>parts[:-1]\<close>, with \<open>chunks\<close> and \<open>formats\<close>
  as they grow. The \<^verbatim>\<open>assert\<close> on the item's type is a branch.
\<close>

fun pg_positional ::
  "QueryPart list \<Rightarrow> bytes list \<Rightarrow> PyFormat list \<Rightarrow> error + (bytes list \<times> PyFormat list)" where
  "pg_positional [] chunks fmts = Inr (chunks, fmts)"
| "pg_positional (part # ps) chunks fmts =
     (case item part of
        Name _ \<Rightarrow> Inl AssertionError
      | Index n \<Rightarrow> pg_positional ps (chunks @ [pre part, marker (n + 1)]) (fmts @ [format part]))"

text \<open>
  The loop of the named branch. \<open>seen\<close> is the dictionary from a name to its marker and
  format, in insertion order; a name is added only when absent, so its length is
  \<^verbatim>\<open>len(seen)\<close>.
\<close>

type_synonym seen = "(pystr \<times> bytes \<times> PyFormat) list"

fun pg_named ::
  "QueryPart list \<Rightarrow> seen \<Rightarrow> pystr list \<Rightarrow> bytes list \<Rightarrow> PyFormat list
     \<Rightarrow> error + (pystr list \<times> bytes list \<times> PyFormat list)" where
  "pg_named [] seen ord chunks fmts = Inr (ord, chunks, fmts)"
| "pg_named (part # ps) seen ord chunks fmts =
     (case item part of
        Index _ \<Rightarrow> Inl AssertionError
      | Name n \<Rightarrow>
          (case map_of seen n of
             None \<Rightarrow>
               (let ph = marker (length seen + 1) in
                pg_named ps (seen @ [(n, ph, format part)]) (ord @ [n])
                  (chunks @ [pre part, ph]) (fmts @ [format part]))
           | Some (ph, f) \<Rightarrow>
               if f \<noteq> format part then Inl (DifferentFormats n)
               else pg_named ps seen ord (chunks @ [pre part, ph]) fmts))"

text \<open>
  \<^verbatim>\<open>parts[0]\<close> and \<^verbatim>\<open>parts[-1]\<close> raise IndexError on an empty list, \<^verbatim>\<open>parts[:-1]\<close> is
  \<open>butlast\<close>. The result is \<^verbatim>\<open>(query, formats, order, parts)\<close>.
\<close>

definition query2pg_nocache ::
  "bytes \<Rightarrow> codec \<Rightarrow> error + (bytes \<times> PyFormat list \<times> pystr list option \<times> QueryPart list)" where
  "query2pg_nocache query enc =
     (case split_query query enc True of
        Inl e \<Rightarrow> Inl e
      | Inr parts \<Rightarrow>
          (case parts of
             [] \<Rightarrow> Inl IndexError
           | p0 # _ \<Rightarrow>
               (case item p0 of
                  Index _ \<Rightarrow>
                    (case pg_positional (butlast parts) [] [] of
                       Inl e \<Rightarrow> Inl e
                     | Inr (chunks, fmts) \<Rightarrow>
                         Inr (concat (chunks @ [pre (last parts)]), fmts, None, parts))
                | Name _ \<Rightarrow>
                    (case pg_named (butlast parts) [] [] [] [] of
                       Inl e \<Rightarrow> Inl e
                     | Inr (ord, chunks, fmts) \<Rightarrow>
                         Inr (concat (chunks @ [pre (last parts)]), fmts, Some ord, parts)))))"

subsection \<open>The client-bind assembler: \<^verbatim>\<open>_query2pg_client_nocache\<close>\<close>

fun client_positional :: "QueryPart list \<Rightarrow> bytes list \<Rightarrow> error + bytes list" where
  "client_positional [] chunks = Inr chunks"
| "client_positional (part # ps) chunks =
     (case item part of
        Name _ \<Rightarrow> Inl AssertionError
      | Index _ \<Rightarrow> client_positional ps (chunks @ [pre part, ''%s'']))"

fun client_named ::
  "QueryPart list \<Rightarrow> seen \<Rightarrow> pystr list \<Rightarrow> bytes list \<Rightarrow> error + (pystr list \<times> bytes list)" where
  "client_named [] seen ord chunks = Inr (ord, chunks)"
| "client_named (part # ps) seen ord chunks =
     (case item part of
        Index _ \<Rightarrow> Inl AssertionError
      | Name n \<Rightarrow>
          (case map_of seen n of
             None \<Rightarrow>
               (let ph = ''%s'' in
                client_named ps (seen @ [(n, ph, format part)]) (ord @ [n]) (chunks @ [pre part, ph]))
           | Some (ph, f) \<Rightarrow> client_named ps seen (ord @ [n]) (chunks @ [pre part, ph])))"

definition query2pg_client_nocache ::
  "bytes \<Rightarrow> codec \<Rightarrow> error + (bytes \<times> pystr list option \<times> QueryPart list)" where
  "query2pg_client_nocache query enc =
     (case split_query query enc False of
        Inl e \<Rightarrow> Inl e
      | Inr parts \<Rightarrow>
          (case parts of
             [] \<Rightarrow> Inl IndexError
           | p0 # _ \<Rightarrow>
               (case item p0 of
                  Index _ \<Rightarrow>
                    (case client_positional (butlast parts) [] of
                       Inl e \<Rightarrow> Inl e
                     | Inr chunks \<Rightarrow> Inr (concat (chunks @ [pre (last parts)]), None, parts))
                | Name _ \<Rightarrow>
                    (case client_named (butlast parts) [] [] [] of
                       Inl e \<Rightarrow> Inl e
                     | Inr (ord, chunks) \<Rightarrow>
                         Inr (concat (chunks @ [pre (last parts)]), Some ord, parts)))))"

subsection \<open>Parameters and their validation\<close>

text \<open>
  The \<^verbatim>\<open>vars\<close> argument by what \<^verbatim>\<open>is_params_sequence\<close> tells apart: a list, a tuple or
  another \<^verbatim>\<open>Sequence\<close> that is neither \<^verbatim>\<open>bytes\<close> nor \<^verbatim>\<open>str\<close>; a dict or another
  \<^verbatim>\<open>Mapping\<close> (keys are \<^verbatim>\<open>str\<close>, as \<^verbatim>\<open>Params\<close> declares; the dictionary is the
  \<open>map_of\<close> of the list); anything else, with the name of its type and its \<^verbatim>\<open>len()\<close> if
  it has one (a \<^verbatim>\<open>str\<close> has, an \<^verbatim>\<open>int\<close> has not).
\<close>

datatype 'v params =
    PySequence "'v list"
  | PyMapping "(pystr \<times> 'v) list"
  | PyOther pystr "nat option"

fun py_len :: "'v params \<Rightarrow> error + nat" where
  "py_len (PySequence vs) = Inr (length vs)"
| "py_len (PyMapping m) = Inr (length (remdups (map fst m)))"
| "py_len (PyOther t None) = Inl (NoLen t)"
| "py_len (PyOther t (Some n)) = Inr n"

fun is_params_sequence :: "'v params \<Rightarrow> error + bool" where
  "is_params_sequence (PySequence _) = Inr True"
| "is_params_sequence (PyMapping _) = Inr False"
| "is_params_sequence (PyOther t _) = Inl (NotSequenceOrMapping t)"

fun is_int :: "pyitem \<Rightarrow> bool" where
  "is_int (Index _) = True"
| "is_int (Name _) = False"

fun is_str :: "pyitem \<Rightarrow> bool" where
  "is_str (Index _) = False"
| "is_str (Name _) = True"

text \<open>
  \<^verbatim>\<open>validate_and_reorder_params\<close>. In the sequence branch \<^verbatim>\<open>parts[0]\<close> is read only when
  \<open>vars\<close> is not empty; in the mapping branch only when \<^verbatim>\<open>len(parts) > 1\<close>. The list
  comprehension \<^verbatim>\<open>[vars[item] for item in order]\<close> raises KeyError at the first name that is
  not a key, which the \<^verbatim>\<open>except\<close> turns into the error listing all of them.
\<close>

definition validate_and_reorder_params ::
  "QueryPart list \<Rightarrow> 'v params \<Rightarrow> pystr list option \<Rightarrow> error + 'v list" where
  "validate_and_reorder_params parts vars ord =
     (case vars of
        PyOther t n \<Rightarrow> Inl (NotSequenceOrMapping t)
      | PySequence vs \<Rightarrow>
          if int (length vs) \<noteq> int (length parts) - 1 then
            Inl (CountMismatch (int (length parts) - 1) (int (length vs)))
          else if vs \<noteq> [] then
            (case parts of
               [] \<Rightarrow> Inl IndexError
             | p0 # _ \<Rightarrow> if \<not> is_int (item p0) then Inl NamedRequireMapping else Inr vs)
          else Inr vs
      | PyMapping m \<Rightarrow>
          if m \<noteq> [] \<and> length parts > 1 \<and> \<not> is_str (item (hd parts)) then
            Inl PositionalRequireSequence
          else
            (case ord of
               None \<Rightarrow> Inr []
             | Some names \<Rightarrow>
                 if names = [] then Inr []
                 else
                   (case those (map (map_of m) names) of
                      Some vs \<Rightarrow> Inr vs
                    | None \<Rightarrow>
                        Inl (MissingParams (sort (filter (\<lambda>i. map_of m i = None) names))))))"

subsection \<open>The module's caches: \<^verbatim>\<open>lru_cache()\<close>\<close>

text \<open>
  \<^verbatim>\<open>lru_cache()\<close> wraps a function with a table of at most 128 results, keyed by the
  arguments. The table is a list, most recently used first. A hit returns the stored result
  and moves the entry to the front; a miss calls the function, stores the result in front
  and drops the entry at the end when the table is over its size; a call that raises stores
  nothing.
\<close>

type_synonym ('k, 'r) lru = "('k \<times> 'r) list"

definition lru_maxsize :: nat where
  "lru_maxsize = 128"

definition lru_call ::
  "('k \<Rightarrow> error + 'r) \<Rightarrow> ('k, 'r) lru \<Rightarrow> 'k \<Rightarrow> (error + 'r) \<times> ('k, 'r) lru" where
  "lru_call f cache k =
     (case map_of cache k of
        Some r \<Rightarrow> (Inr r, (k, r) # filter (\<lambda>e. fst e \<noteq> k) cache)
      | None \<Rightarrow>
          (case f k of
             Inl e \<Rightarrow> (Inl e, cache)
           | Inr r \<Rightarrow> (Inr r, take lru_maxsize ((k, r) # cache))))"

text \<open>
  The two module-level tables, \<^verbatim>\<open>_query2pg = lru_cache()(_query2pg_nocache)\<close> and
  \<^verbatim>\<open>_query2pg_client = lru_cache()(_query2pg_client_nocache)\<close>, as the state every call
  takes and returns.
\<close>

record caches =
  pg_cache :: "(bytes \<times> codec, bytes \<times> PyFormat list \<times> pystr list option \<times> QueryPart list) lru"
  client_cache :: "(bytes \<times> codec, bytes \<times> pystr list option \<times> QueryPart list) lru"

definition no_caches :: caches where
  "no_caches = \<lparr>pg_cache = [], client_cache = []\<rparr>"

definition query2pg ::
  "caches \<Rightarrow> bytes \<Rightarrow> codec
     \<Rightarrow> (error + (bytes \<times> PyFormat list \<times> pystr list option \<times> QueryPart list)) \<times> caches" where
  "query2pg cs query enc =
     (case lru_call (\<lambda>(q, e). query2pg_nocache q e) (pg_cache cs) (query, enc) of
        (r, c) \<Rightarrow> (r, cs\<lparr>pg_cache := c\<rparr>))"

definition query2pg_client ::
  "caches \<Rightarrow> bytes \<Rightarrow> codec
     \<Rightarrow> (error + (bytes \<times> pystr list option \<times> QueryPart list)) \<times> caches" where
  "query2pg_client cs query enc =
     (case lru_call (\<lambda>(q, e). query2pg_client_nocache q e) (client_cache cs) (query, enc) of
        (r, c) \<Rightarrow> (r, cs\<lparr>client_cache := c\<rparr>))"

subsection \<open>\<^verbatim>\<open>PostgresQuery\<close>\<close>

definition MAX_CACHED_STATEMENT_LENGTH :: nat where
  "MAX_CACHED_STATEMENT_LENGTH = 4096"

definition MAX_CACHED_STATEMENT_PARAMS :: nat where
  "MAX_CACHED_STATEMENT_PARAMS = 50"

text \<open>\<^verbatim>\<open>pq.Format\<close>, the wire format of a parameter.\<close>

datatype PqFormat = PQ_TEXT | PQ_BINARY

text \<open>
  The transformer is outside the module. The model takes what the module uses of it: the
  encoding of its connection, \<^verbatim>\<open>dump_sequence\<close> (its result with the \<^verbatim>\<open>types\<close> and
  \<^verbatim>\<open>formats\<close> attributes it leaves behind), \<^verbatim>\<open>as_literal\<close>, and the rendering of a
  \<^verbatim>\<open>Composable\<close> by \<^verbatim>\<open>as_bytes\<close>. A parameter value is \<open>None\<close> or \<open>Some v\<close>.
\<close>

record ('v, 'c) transformer =
  conn_encoding :: codec
  dump_sequence ::
    "'v option list \<Rightarrow> PyFormat list
       \<Rightarrow> error + (bytes option list \<times> int list option \<times> PqFormat list option)"
  as_literal :: "'v \<Rightarrow> error + bytes"
  as_bytes :: "'c \<Rightarrow> error + bytes"

text \<open>The \<^verbatim>\<open>query\<close> argument: a \<^verbatim>\<open>str\<close>, a \<^verbatim>\<open>Composable\<close> or \<^verbatim>\<open>bytes\<close>.\<close>

datatype 'c pyquery = QStr pystr | QComposable 'c | QBytes bytes

text \<open>
  The attributes of the object. \<^verbatim>\<open>_parts\<close> has no value until \<^verbatim>\<open>convert\<close> gives it one
  (\<open>None\<close> here is the unset slot, whose read raises AttributeError).
\<close>

record ('v, 'c) PostgresQuery =
  tx :: "('v, 'c) transformer"
  params :: "bytes option list option"
  types :: "int list"
  want_formats :: "PyFormat list option"
  formats :: "PqFormat list option"
  encoding :: codec
  parts :: "QueryPart list option"
  query :: bytes
  order :: "pystr list option"

text \<open>\<^verbatim>\<open>__init__\<close>\<close>

definition init :: "('v, 'c) transformer \<Rightarrow> ('v, 'c) PostgresQuery" where
  "init transformer =
     \<lparr>tx = transformer, params = None, types = [], want_formats = None, formats = None,
      encoding = conn_encoding transformer, parts = None, query = [], order = None\<rparr>"

text \<open>The first lines of \<^verbatim>\<open>convert\<close>: the query as bytes.\<close>

definition bquery_of ::
  "('v, 'c, 'z) PostgresQuery_scheme \<Rightarrow> 'c pyquery \<Rightarrow> error + bytes" where
  "bquery_of self q =
     (case q of
        QStr s \<Rightarrow> encode (encoding self) s
      | QComposable c \<Rightarrow> as_bytes (tx self) c
      | QBytes b \<Rightarrow> Inr b)"

text \<open>
  \<^verbatim>\<open>PostgresQuery.dump\<close>. An exception leaves the object as the statements before it made
  it; the model returns the error alone.
\<close>

definition dump ::
  "('v, 'c) PostgresQuery \<Rightarrow> 'v option params option \<Rightarrow> error + ('v, 'c) PostgresQuery" where
  "dump self vars =
     (case vars of
        None \<Rightarrow> Inr (self\<lparr>params := None, types := [], formats := None\<rparr>)
      | Some vs \<Rightarrow>
          (case parts self of
             None \<Rightarrow> Inl AttributeError
           | Some ps \<Rightarrow>
               (case validate_and_reorder_params ps vs (order self) of
                  Inl e \<Rightarrow> Inl e
                | Inr ordered \<Rightarrow>
                    (case want_formats self of
                       None \<Rightarrow> Inl AssertionError
                     | Some wfs \<Rightarrow>
                         (case dump_sequence (tx self) ordered wfs of
                            Inl e \<Rightarrow> Inl e
                          | Inr (ps', tys, fs) \<Rightarrow>
                              Inr (self\<lparr>params := Some ps',
                                        types := (case tys of None \<Rightarrow> [] | Some t \<Rightarrow> t),
                                        formats := fs\<rparr>))))))"

text \<open>
  \<^verbatim>\<open>PostgresQuery.convert\<close>. \<^verbatim>\<open>len(vars)\<close> is evaluated only when the query is short
  enough (\<^verbatim>\<open>and\<close> does not evaluate its right operand otherwise).
\<close>

definition use_cache :: "bytes \<Rightarrow> 'v params \<Rightarrow> error + bool" where
  "use_cache bquery vs =
     (if length bquery \<le> MAX_CACHED_STATEMENT_LENGTH then
        (case py_len vs of
           Inl e \<Rightarrow> Inl e
         | Inr n \<Rightarrow> Inr (n \<le> MAX_CACHED_STATEMENT_PARAMS))
      else Inr False)"

definition convert ::
  "caches \<Rightarrow> ('v, 'c) PostgresQuery \<Rightarrow> 'c pyquery \<Rightarrow> 'v option params option
     \<Rightarrow> (error + ('v, 'c) PostgresQuery) \<times> caches" where
  "convert cs self q vars =
     (case bquery_of self q of
        Inl e \<Rightarrow> (Inl e, cs)
      | Inr bquery \<Rightarrow>
          (case vars of
             None \<Rightarrow> (dump (self\<lparr>query := bquery, want_formats := None, order := None\<rparr>) vars, cs)
           | Some vs \<Rightarrow>
               (case use_cache bquery vs of
                  Inl e \<Rightarrow> (Inl e, cs)
                | Inr cached \<Rightarrow>
                    (case (if cached then query2pg cs bquery (encoding self)
                           else (query2pg_nocache bquery (encoding self), cs)) of
                       (Inl e, cs') \<Rightarrow> (Inl e, cs')
                     | (Inr (rq, wfs, ord, ps), cs') \<Rightarrow>
                         (dump (self\<lparr>query := rq, want_formats := Some wfs, order := ord,
                                      parts := Some ps\<rparr>) vars, cs')))))"

subsection \<open>\<^verbatim>\<open>PostgresClientQuery\<close>\<close>

text \<open>The subclass adds the \<^verbatim>\<open>template\<close> slot, unset until \<^verbatim>\<open>convert\<close> fills it.\<close>

record ('v, 'c) PostgresClientQuery = "('v, 'c) PostgresQuery" +
  template :: "bytes option"

definition client_init :: "('v, 'c) transformer \<Rightarrow> ('v, 'c) PostgresClientQuery" where
  "client_init transformer = PostgresQuery.extend (init transformer) \<lparr>template = None\<rparr>"

text \<open>
  \<^verbatim>\<open>template % params\<close> for a tuple of \<^verbatim>\<open>bytes\<close>: \<^verbatim>\<open>%s\<close> takes the next argument, \<^verbatim>\<open>%%\<close>
  is a percent sign. A template holds no other directive: a \<^verbatim>\<open>%\<close> followed by another
  byte, or by nothing, is an error, as are a missing and a remaining argument.
\<close>

fun bytes_mod :: "bytes \<Rightarrow> bytes list \<Rightarrow> error + bytes" where
  "bytes_mod [] args = (if args = [] then Inr [] else Inl FormatNotAllConverted)"
| "bytes_mod (c # r) args =
     (if c \<noteq> CHR ''%'' then
        (case bytes_mod r args of Inl e \<Rightarrow> Inl e | Inr out \<Rightarrow> Inr (c # out))
      else
        (case r of
           [] \<Rightarrow> Inl FormatUnsupported
         | d # r' \<Rightarrow>
             if d = CHR ''%'' then
               (case bytes_mod r' args of Inl e \<Rightarrow> Inl e | Inr out \<Rightarrow> Inr (CHR ''%'' # out))
             else if d = CHR ''s'' then
               (case args of
                  [] \<Rightarrow> Inl FormatNotEnoughArguments
                | a # as \<Rightarrow>
                    (case bytes_mod r' as of Inl e \<Rightarrow> Inl e | Inr out \<Rightarrow> Inr (a @ out)))
             else Inl FormatUnsupported))"

text \<open>\<^verbatim>\<open>tuple(self._tx.as_literal(p) if p is not None else b"NULL" for p in params)\<close>\<close>

fun literals :: "('v, 'c) transformer \<Rightarrow> 'v option list \<Rightarrow> error + bytes list" where
  "literals t [] = Inr []"
| "literals t (p # ps) =
     (case (case p of None \<Rightarrow> Inr ''NULL'' | Some v \<Rightarrow> as_literal t v) of
        Inl e \<Rightarrow> Inl e
      | Inr l \<Rightarrow> (case literals t ps of Inl e \<Rightarrow> Inl e | Inr ls \<Rightarrow> Inr (l # ls)))"

text \<open>\<^verbatim>\<open>PostgresClientQuery.dump\<close>: it writes \<^verbatim>\<open>params\<close> and \<^verbatim>\<open>query\<close> only.\<close>

definition client_dump ::
  "('v, 'c) PostgresClientQuery \<Rightarrow> 'v option params option
     \<Rightarrow> error + ('v, 'c) PostgresClientQuery" where
  "client_dump self vars =
     (case vars of
        None \<Rightarrow> Inr (self\<lparr>params := None\<rparr>)
      | Some vs \<Rightarrow>
          (case parts self of
             None \<Rightarrow> Inl AttributeError
           | Some ps \<Rightarrow>
               (case validate_and_reorder_params ps vs (order self) of
                  Inl e \<Rightarrow> Inl e
                | Inr ordered \<Rightarrow>
                    (case literals (tx self) ordered of
                       Inl e \<Rightarrow> Inl e
                     | Inr ls \<Rightarrow>
                         (case template self of
                            None \<Rightarrow> Inl AttributeError
                          | Some t \<Rightarrow>
                              (case bytes_mod t ls of
                                 Inl e \<Rightarrow> Inl e
                               | Inr b \<Rightarrow> Inr (self\<lparr>params := Some (map Some ls), query := b\<rparr>)))))))"

text \<open>\<^verbatim>\<open>PostgresClientQuery.convert\<close>\<close>

definition client_convert ::
  "caches \<Rightarrow> ('v, 'c) PostgresClientQuery \<Rightarrow> 'c pyquery \<Rightarrow> 'v option params option
     \<Rightarrow> (error + ('v, 'c) PostgresClientQuery) \<times> caches" where
  "client_convert cs self q vars =
     (case bquery_of self q of
        Inl e \<Rightarrow> (Inl e, cs)
      | Inr bquery \<Rightarrow>
          (case vars of
             None \<Rightarrow> (client_dump (self\<lparr>query := bquery, order := None\<rparr>) vars, cs)
           | Some vs \<Rightarrow>
               (case use_cache bquery vs of
                  Inl e \<Rightarrow> (Inl e, cs)
                | Inr cached \<Rightarrow>
                    (case (if cached then query2pg_client cs bquery (encoding self)
                           else (query2pg_client_nocache bquery (encoding self), cs)) of
                       (Inl e, cs') \<Rightarrow> (Inl e, cs')
                     | (Inr (t, ord, ps), cs') \<Rightarrow>
                         (client_dump (self\<lparr>template := Some t, order := ord,
                                             parts := Some ps\<rparr>) vars, cs')))))"

section \<open>Properties\<close>

subsection \<open>Notions the statements use\<close>

text \<open>The name of a named part and the index of a positional one.\<close>

definition name_of :: "QueryPart \<Rightarrow> pystr" where
  "name_of p = (case item p of Name n \<Rightarrow> n | Index _ \<Rightarrow> [])"

definition index_arg :: "QueryPart \<Rightarrow> nat" where
  "index_arg p = (case item p of Index k \<Rightarrow> k | Name _ \<Rightarrow> 0)"

text \<open>The elements of a list in the order of their first occurrence, each once.\<close>

fun first_occurrences :: "'a list \<Rightarrow> 'a list" where
  "first_occurrences [] = []"
| "first_occurrences (x # xs) = x # first_occurrences (filter (\<lambda>y. y \<noteq> x) xs)"

text \<open>The position of the first occurrence of an element.\<close>

fun index_of :: "'a list \<Rightarrow> 'a \<Rightarrow> nat" where
  "index_of [] x = 0"
| "index_of (y # ys) x = (if x = y then 0 else Suc (index_of ys x))"

text \<open>
  The dictionary \<open>seen\<close> of the named branch after the names \<open>ord\<close> were met with the formats
  \<open>fmts\<close>: the name at position \<open>k\<close> holds the marker \<open>k + 1\<close>.
\<close>

definition mk_seen :: "pystr list \<Rightarrow> PyFormat list \<Rightarrow> seen" where
  "mk_seen ord fmts = zip ord (zip (map (\<lambda>k. marker (Suc k)) [0..<length ord]) fmts)"

text \<open>The format of each named part, by name; \<open>map_of\<close> reads the first occurrence.\<close>

definition fmt_table :: "QueryPart list \<Rightarrow> (pystr \<times> PyFormat) list" where
  "fmt_table ps = map (\<lambda>p. (name_of p, format p)) ps"

text \<open>
  The placeholder occurrences of a query: the matches of the pattern, from left to right,
  but the escapes \<^verbatim>\<open>%%\<close>; and the format the last byte of a match stands for.
\<close>

definition placeholders :: "bytes \<Rightarrow> rematch list" where
  "placeholders q = filter (\<lambda>m. group0 m \<noteq> ''%%'') (finditer q)"

definition fmt_of :: "rematch \<Rightarrow> PyFormat" where
  "fmt_of m = (case ph_to_fmt (last_slice (group0 m)) of Some f \<Rightarrow> f | None \<Rightarrow> AUTO)"

text \<open>The matches in the list the second loop works on, up to its last element.\<close>

definition matches_of :: "(bytes \<times> rematch option) list \<Rightarrow> rematch list" where
  "matches_of toks = List.map_filter snd (takeWhile (\<lambda>t. snd t \<noteq> None) toks)"

text \<open>
  A table is sound for a function when every entry holds what the function returns for
  its key; the empty tables are.
\<close>

definition cache_sound :: "('k \<Rightarrow> error + 'r) \<Rightarrow> ('k, 'r) lru \<Rightarrow> bool" where
  "cache_sound f c = list_all (\<lambda>e. f (fst e) = Inr (snd e)) c"

definition caches_sound :: "caches \<Rightarrow> bool" where
  "caches_sound cs =
     (cache_sound (\<lambda>(q, e). query2pg_nocache q e) (pg_cache cs)
      \<and> cache_sound (\<lambda>(q, e). query2pg_client_nocache q e) (client_cache cs))"

text \<open>A transformer for the examples: integers, written in decimal.\<close>

definition stub_tx :: "(int, bytes) transformer" where
  "stub_tx =
     \<lparr>conn_encoding = ascii,
      dump_sequence = (\<lambda>vs fs. Inr (map (map_option (\<lambda>v. decimal (nat v))) vs,
                                     Some (map (\<lambda>_. 0) vs), Some (map (\<lambda>_. PQ_TEXT) vs))),
      as_literal = (\<lambda>v. Inr (decimal (nat v))),
      as_bytes = Inr\<rparr>"

text \<open>
  The states of a client-bind query object: as \<^verbatim>\<open>__init__\<close> leaves it, and after any
  call of \<^verbatim>\<open>convert\<close> or \<^verbatim>\<open>dump\<close> that returns.
\<close>

inductive client_reachable :: "('v, 'c) PostgresClientQuery \<Rightarrow> bool" where
  reach_init: "client_reachable (client_init t)"
| reach_convert:
    "client_reachable s \<Longrightarrow> client_convert cs s q vars = (Inr s', cs') \<Longrightarrow> client_reachable s'"
| reach_dump: "client_reachable s \<Longrightarrow> client_dump s vars = Inr s' \<Longrightarrow> client_reachable s'"

subsection \<open>The shape of the scanner's result\<close>

lemma item_of_cases:
  "item_of enc m i = Inr it \<Longrightarrow> it = Index i \<or> is_str it"
  by (auto simp: item_of_def split: option.splits if_splits sum.splits)

lemma split_loop_shape:
  "split_loop enc c q toks i pht rv = Inr ps \<Longrightarrow>
   \<exists>new fin. ps = rv @ new @ fin \<and> length fin \<le> 1
     \<and> (\<forall>p\<in>set fin. item p = Index 0 \<and> format p = AUTO)
     \<and> (fin = [] \<longleftrightarrow> (\<forall>t\<in>set toks. snd t \<noteq> None))
     \<and> ((pht \<noteq> Some StrT \<and> map item new = map Index [i..<i + length new])
        \<or> (pht \<noteq> Some IntT \<and> list_all (\<lambda>p. is_str (item p)) new))"
proof (induction enc c q toks i pht rv arbitrary: ps rule: split_loop.induct)
  case (1 enc collapse query i phtype rv)
  then show ?case by auto
next
  case (2 enc collapse query pre0 rest i phtype rv)
  have "phtype \<noteq> Some StrT \<or> phtype \<noteq> Some IntT" by auto
  with 2 show ?case
    by (intro exI[of _ "[]"] exI[of _ "[QueryPart pre0 (Index 0) AUTO]"]) auto
next
  case (3 enc collapse query pre0 m rest i phtype rv)
  show ?case
  proof (cases "group0 m = ''%%''")
    case True
    then obtain pre1 m1 rest' where r: "rest = (pre1, m1) # rest'"
      using 3(3) by (cases rest) (auto simp: Let_def)
    from 3(3) True r have "split_loop enc collapse query ((pre0 @ (if collapse then ''%'' else group0 m) @ pre1, m1) # rest') i phtype rv = Inr ps"
      by (cases collapse) (simp_all add: Let_def)
    from 3(1)[OF refl True r refl this] show ?thesis
      using r by auto
  next
    case False
    from 3(3) False obtain it f where
      it: "item_of enc m i = Inr it"
      and pt: "phtype = None \<or> phtype = Some (type_of it)"
      and f: "ph_to_fmt (last_slice (group0 m)) = Some f"
      and rec: "split_loop enc collapse query rest (Suc i) (Some (type_of it)) (rv @ [QueryPart pre0 it f]) = Inr ps"
      by (auto simp: Let_def split: if_splits sum.splits option.splits)
    have n1: "group0 m \<noteq> ''%(''" "group0 m \<noteq> ''% ''" "\<not> \<not> in_sbt (last_slice (group0 m))"
      using 3(3) False by (auto simp: Let_def split: if_splits sum.splits option.splits)
    have n2: "\<not> (phtype \<noteq> None \<and> phtype \<noteq> Some (type_of it))" using pt by auto
    from 3(2)[OF refl False n1 it n2 f rec]
    obtain new fin where IH: "ps = (rv @ [QueryPart pre0 it f]) @ new @ fin" "length fin \<le> 1"
      "\<forall>p\<in>set fin. item p = Index 0 \<and> format p = AUTO"
      "(fin = []) = (\<forall>t\<in>set rest. snd t \<noteq> None)"
      "(Some (type_of it) \<noteq> Some StrT \<and> map item new = map Index [Suc i..<Suc i + length new])
        \<or> (Some (type_of it) \<noteq> Some IntT \<and> list_all (\<lambda>p. is_str (item p)) new)"
      by blast
    show ?thesis
      apply (rule exI[of _ "QueryPart pre0 it f # new"])
      apply (rule exI[of _ fin])
      using IH pt item_of_cases[OF it]
      apply (cases it)
       apply (auto simp: upt_rec[of i])
      done
  qed
qed


lemma fragments_shape:
  "\<exists>front p. fragments q cur ms = front @ [(p, None)] \<and> (\<forall>t\<in>set front. snd t \<noteq> None)"
proof (induction ms arbitrary: cur)
  case Nil
  show ?case by simp
next
  case (Cons m ms)
  from Cons[of "span_end m"] obtain front p where
    "fragments q (span_end m) ms = front @ [(p, None)]" "\<forall>t\<in>set front. snd t \<noteq> None"
    by blast
  then show ?case
    by (intro exI[of _ "(take (span_start m - cur) (drop cur q), Some m) # front"] exI[of _ p]) simp
qed

lemma split_query_shape:
  assumes "split_query q enc c = Inr ps"
  shows "\<exists>new fin. ps = new @ [fin] \<and> item fin = Index 0 \<and> format fin = AUTO
     \<and> (map item new = map Index [0..<length new] \<or> list_all (\<lambda>p. is_str (item p)) new)"
proof -
  obtain front p where fr: "fragments q 0 (finditer q) = front @ [(p, None)]"
    using fragments_shape by blast
  from split_loop_shape[OF assms[unfolded split_query_def]]
  obtain new fin where sh: "ps = [] @ new @ fin" "length fin \<le> 1"
     "\<forall>p\<in>set fin. item p = Index 0 \<and> format p = AUTO"
     "(fin = []) = (\<forall>t\<in>set (fragments q 0 (finditer q)). snd t \<noteq> None)"
     "(None \<noteq> Some StrT \<and> map item new = map Index [0..<0 + length new])
        \<or> (None \<noteq> Some IntT \<and> list_all (\<lambda>p. is_str (item p)) new)"
    by blast
  from sh(4) fr have "fin \<noteq> []" by auto
  with sh(2) obtain s where "fin = [s]" by (cases fin) auto
  with sh show ?thesis by auto
qed

lemma those_map:
  "those (map f xs) = (if \<forall>x\<in>set xs. f x \<noteq> None then Some (map (\<lambda>x. the (f x)) xs) else None)"
  by (induction xs) (auto split: option.splits)

lemma positional_hd:
  "map item (p0 # rest) = map Index [0..<length (p0 # rest)] \<Longrightarrow> item p0 = Index 0"
  by (simp add: upt_conv_Cons del: upt_Suc)

subsection \<open>The loops of the assemblers\<close>

lemma name_of_Name [simp]: "item p = Name n \<Longrightarrow> name_of p = n"
  by (simp add: name_of_def)

lemma index_arg_Index [simp]: "item p = Index k \<Longrightarrow> index_arg p = k"
  by (simp add: index_arg_def)

lemma pg_positional_acc:
  "list_all (\<lambda>p. is_int (item p)) ps \<Longrightarrow>
   pg_positional ps chunks fmts =
     Inr (chunks @ concat (map (\<lambda>p. [pre p, marker (Suc (index_arg p))]) ps), fmts @ map format ps)"
  by (induction ps arbitrary: chunks fmts) (auto split: pyitem.splits)

lemma client_positional_acc:
  "list_all (\<lambda>p. is_int (item p)) ps \<Longrightarrow>
   client_positional ps chunks = Inr (chunks @ concat (map (\<lambda>p. [pre p, ''%s'']) ps))"
  by (induction ps arbitrary: chunks) (auto split: pyitem.splits)

lemma client_named_acc:
  "list_all (\<lambda>p. is_str (item p)) ps \<Longrightarrow> \<forall>e\<in>set seen. fst (snd e) = ''%s'' \<Longrightarrow>
   client_named ps seen ord chunks =
     Inr (ord @ map name_of ps, chunks @ concat (map (\<lambda>p. [pre p, ''%s'']) ps))"
proof (induction ps arbitrary: seen ord chunks)
  case Nil
  then show ?case by simp
next
  case (Cons p ps)
  then obtain n where n: "item p = Name n" by (cases "item p") auto
  show ?case
  proof (cases "map_of seen n")
    case None
    with Cons n show ?thesis by (simp add: Let_def)
  next
    case (Some a)
    then have "(n, a) \<in> set seen" by (rule map_of_SomeD)
    with Cons.prems(2) have "fst a = ''%s''" by fastforce
    with Cons n Some show ?thesis by (cases a) simp
  qed
qed

lemma set_first_occurrences [simp]: "set (first_occurrences xs) = set xs"
  by (induction xs rule: first_occurrences.induct) auto

lemma distinct_first_occurrences [simp]: "distinct (first_occurrences xs)"
  by (induction xs rule: first_occurrences.induct) auto

lemma index_of_append_in: "x \<in> set xs \<Longrightarrow> index_of (xs @ ys) x = index_of xs x"
  by (induction xs) auto

lemma index_of_append_new: "x \<notin> set xs \<Longrightarrow> index_of (xs @ x # ys) x = length xs"
  by (induction xs) auto

lemma index_of_nth: "distinct xs \<Longrightarrow> k < length xs \<Longrightarrow> index_of xs (xs ! k) = k"
  by (induction xs arbitrary: k) (auto simp: nth_Cons split: nat.splits)


lemma mk_seen_snoc:
  "length fmts = length ord \<Longrightarrow>
   mk_seen (ord @ [n]) (fmts @ [f]) = mk_seen ord fmts @ [(n, marker (Suc (length ord)), f)]"
  by (simp add: mk_seen_def)

lemma length_mk_seen: "length fmts = length ord \<Longrightarrow> length (mk_seen ord fmts) = length ord"
  by (simp add: mk_seen_def)

lemma mk_seen_None:
  "length fmts = length ord \<Longrightarrow> map_of (mk_seen ord fmts) n = None \<longleftrightarrow> n \<notin> set ord"
  by (simp add: mk_seen_def map_of_zip_is_None)

lemma index_of_less: "x \<in> set xs \<Longrightarrow> index_of xs x < length xs"
  by (induction xs) auto

lemma nth_index_of: "x \<in> set xs \<Longrightarrow> xs ! index_of xs x = x"
  by (induction xs) auto

lemma mk_seen_Some:
  assumes "length fmts = length ord" "distinct ord" "n \<in> set ord"
  shows "map_of (mk_seen ord fmts) n = Some (marker (Suc (index_of ord n)), fmts ! index_of ord n)"
    and "map_of (zip ord fmts) n = Some (fmts ! index_of ord n)"
proof -
  let ?k = "index_of ord n"
  have k: "?k < length ord" "ord ! ?k = n"
    using assms(3) by (simp_all add: index_of_less nth_index_of)
  let ?ys = "zip (map (\<lambda>k. marker (Suc k)) [0..<length ord]) fmts"
  have "map_of (zip ord ?ys) (ord ! ?k) = Some (?ys ! ?k)"
    using assms k by (intro map_of_zip_nth) simp_all
  then show "map_of (mk_seen ord fmts) n = Some (marker (Suc ?k), fmts ! ?k)"
    using k assms(1) by (simp add: mk_seen_def)
  have "map_of (zip ord fmts) (ord ! ?k) = Some (fmts ! ?k)"
    using assms k by (intro map_of_zip_nth) simp_all
  then show "map_of (zip ord fmts) n = Some (fmts ! ?k)"
    using k by simp
qed

lemma fst_set_zip: "length xs = length ys \<Longrightarrow> fst ` set (zip xs ys) = set xs"
  by (metis map_fst_zip set_map)

lemma map_of_skip: "x \<noteq> n \<Longrightarrow> map_of (T @ (n, f) # R) x = map_of (T @ R) x"
  by (induction T) auto

lemma map_of_shadow:
  assumes "n \<in> fst ` set T"
  shows "map_of (T @ (n, f) # R) = map_of (T @ R)"
proof
  fix x
  show "map_of (T @ (n, f) # R) x = map_of (T @ R) x"
  proof (cases "x = n")
    case True
    from assms obtain v where "map_of T n = Some v"
      by (cases "map_of T n") (auto simp: map_of_eq_None_iff)
    with True show ?thesis by (simp add: map_add_def)
  next
    case False
    then show ?thesis by (rule map_of_skip)
  qed
qed

lemma pg_named_ok:
  assumes "list_all (\<lambda>p. is_str (item p)) ps" "length fmts = length ord" "distinct ord"
    and "pg_named ps (mk_seen ord fmts) ord chunks fmts = Inr (ord', chunks', fmts')"
  shows "ord' = ord @ first_occurrences (filter (\<lambda>n. n \<notin> set ord) (map name_of ps))
     \<and> fmts' = fmts @ map (\<lambda>n. the (map_of (fmt_table ps) n))
                       (first_occurrences (filter (\<lambda>n. n \<notin> set ord) (map name_of ps)))
     \<and> chunks' = chunks @ concat (map (\<lambda>p. [pre p, marker (Suc (index_of ord' (name_of p)))]) ps)
     \<and> (\<forall>p\<in>set ps. map_of (zip ord fmts @ fmt_table ps) (name_of p) = Some (format p))"
  using assms
proof (induction ps arbitrary: ord fmts chunks)
  case Nil
  then show ?case by (simp add: fmt_table_def)
next
  case (Cons p ps)
  then obtain n where n: "item p = Name n" by (cases "item p") auto
  let ?f = "format p"
  show ?case
  proof (cases "n \<in> set ord")
    case False
    then have none: "map_of (mk_seen ord fmts) n = None"
      using Cons.prems(2) by (simp add: mk_seen_None)
    have rec: "pg_named ps (mk_seen (ord @ [n]) (fmts @ [?f])) (ord @ [n])
            (chunks @ [pre p, marker (Suc (length ord))]) (fmts @ [?f]) = Inr (ord', chunks', fmts')"
      using Cons.prems(4) n none Cons.prems(2)
      by (simp add: Let_def mk_seen_snoc length_mk_seen)
    have IH: "ord' = (ord @ [n]) @ first_occurrences (filter (\<lambda>m. m \<notin> set (ord @ [n])) (map name_of ps))
     \<and> fmts' = (fmts @ [?f]) @ map (\<lambda>m. the (map_of (fmt_table ps) m))
                       (first_occurrences (filter (\<lambda>m. m \<notin> set (ord @ [n])) (map name_of ps)))
     \<and> chunks' = (chunks @ [pre p, marker (Suc (length ord))]) @ concat (map (\<lambda>p. [pre p, marker (Suc (index_of ord' (name_of p)))]) ps)
     \<and> (\<forall>p\<in>set ps. map_of (zip (ord @ [n]) (fmts @ [?f]) @ fmt_table ps) (name_of p) = Some (format p))"
      using Cons.prems False by (intro Cons.IH[OF _ _ _ rec]) auto
    have flt0: "filter (\<lambda>m. m \<notin> set (ord @ [n])) (map name_of ps)
        = filter (\<lambda>y. y \<noteq> n) (filter (\<lambda>m. m \<notin> set ord) (map name_of ps))"
      by (auto intro: filter_cong)
    note IH = IH[unfolded flt0]
    let ?new = "first_occurrences (filter (\<lambda>y. y \<noteq> n) (filter (\<lambda>m. m \<notin> set ord) (map name_of ps)))"
    have nn: "n \<notin> set ?new" by simp
    have a: "ord' = ord @ first_occurrences (filter (\<lambda>n. n \<notin> set ord) (map name_of (p # ps)))"
      using IH False n by simp
    have idx: "index_of ord' n = length ord"
      using IH False by (simp add: index_of_append_new)
    have b: "fmts' = fmts @ map (\<lambda>n. the (map_of (fmt_table (p # ps)) n))
                       (first_occurrences (filter (\<lambda>n. n \<notin> set ord) (map name_of (p # ps))))"
      using IH False n nn by (auto simp: fmt_table_def)
    have c: "chunks' = chunks @ concat (map (\<lambda>p. [pre p, marker (Suc (index_of ord' (name_of p)))]) (p # ps))"
      using IH n idx by simp
    have tn: "map_of (zip ord fmts) n = None"
      using False Cons.prems(2) by (simp add: map_of_zip_is_None)
    have tbl: "zip (ord @ [n]) (fmts @ [?f]) @ fmt_table ps = zip ord fmts @ fmt_table (p # ps)"
      using Cons.prems(2) n by (simp add: fmt_table_def)
    have d: "\<forall>q\<in>set (p # ps). map_of (zip ord fmts @ fmt_table (p # ps)) (name_of q) = Some (format q)"
      using IH n tn unfolding tbl by (auto simp: fmt_table_def map_add_def)
    from a b c d show ?thesis by blast
  next
    case True
    note some = mk_seen_Some[OF Cons.prems(2,3) True]
    have eq: "fmts ! index_of ord n = ?f"
      using Cons.prems(4) n some(1) by (auto split: if_splits)
    have rec: "pg_named ps (mk_seen ord fmts) ord
            (chunks @ [pre p, marker (Suc (index_of ord n))]) fmts = Inr (ord', chunks', fmts')"
      using Cons.prems(4) n some(1) eq by simp
    have IH: "ord' = ord @ first_occurrences (filter (\<lambda>m. m \<notin> set ord) (map name_of ps))
     \<and> fmts' = fmts @ map (\<lambda>m. the (map_of (fmt_table ps) m))
                       (first_occurrences (filter (\<lambda>m. m \<notin> set ord) (map name_of ps)))
     \<and> chunks' = (chunks @ [pre p, marker (Suc (index_of ord n))]) @ concat (map (\<lambda>p. [pre p, marker (Suc (index_of ord' (name_of p)))]) ps)
     \<and> (\<forall>p\<in>set ps. map_of (zip ord fmts @ fmt_table ps) (name_of p) = Some (format p))"
      using Cons.prems by (intro Cons.IH[OF _ _ _ rec]) auto
    let ?new = "first_occurrences (filter (\<lambda>m. m \<notin> set ord) (map name_of ps))"
    have nn: "n \<notin> set ?new" using True by simp
    have a: "ord' = ord @ first_occurrences (filter (\<lambda>n. n \<notin> set ord) (map name_of (p # ps)))"
      using IH True n by simp
    have idx: "index_of ord' n = index_of ord n"
      using IH True by (simp add: index_of_append_in)
    have b: "fmts' = fmts @ map (\<lambda>n. the (map_of (fmt_table (p # ps)) n))
                       (first_occurrences (filter (\<lambda>n. n \<notin> set ord) (map name_of (p # ps))))"
      using IH True n nn by (auto simp: fmt_table_def)
    have c: "chunks' = chunks @ concat (map (\<lambda>p. [pre p, marker (Suc (index_of ord' (name_of p)))]) (p # ps))"
      using IH n idx by simp
    have sh: "map_of (zip ord fmts @ fmt_table (p # ps)) = map_of (zip ord fmts @ fmt_table ps)"
    proof -
      have "n \<in> fst ` set (zip ord fmts)"
        using True Cons.prems(2) by (simp add: fst_set_zip)
      from map_of_shadow[OF this, of ?f "fmt_table ps"] n show ?thesis
        by (simp add: fmt_table_def)
    qed
    have d: "\<forall>q\<in>set (p # ps). map_of (zip ord fmts @ fmt_table (p # ps)) (name_of q) = Some (format q)"
      unfolding sh using IH n some(2) eq by (auto simp: map_add_def)
    from a b c d show ?thesis by blast
  qed
qed

lemma pg_named_fail:
  assumes "list_all (\<lambda>p. is_str (item p)) ps" "length fmts = length ord" "distinct ord"
    and "pg_named ps (mk_seen ord fmts) ord chunks fmts = Inl e"
  shows "\<exists>p. find (\<lambda>p. map_of (zip ord fmts @ fmt_table ps) (name_of p) \<noteq> Some (format p)) ps = Some p
     \<and> e = DifferentFormats (name_of p)"
  using assms
proof (induction ps arbitrary: ord fmts chunks)
  case Nil
  then show ?case by simp
next
  case (Cons p ps)
  then obtain n where n: "item p = Name n" by (cases "item p") auto
  let ?f = "format p"
  show ?case
  proof (cases "n \<in> set ord")
    case False
    then have none: "map_of (mk_seen ord fmts) n = None"
      using Cons.prems(2) by (simp add: mk_seen_None)
    have rec: "pg_named ps (mk_seen (ord @ [n]) (fmts @ [?f])) (ord @ [n])
            (chunks @ [pre p, marker (Suc (length ord))]) (fmts @ [?f]) = Inl e"
      using Cons.prems(4) n none Cons.prems(2)
      by (simp add: Let_def mk_seen_snoc length_mk_seen)
    have tbl: "zip (ord @ [n]) (fmts @ [?f]) @ fmt_table ps = zip ord fmts @ fmt_table (p # ps)"
      using Cons.prems(2) n by (simp add: fmt_table_def)
    have tn: "map_of (zip ord fmts) n = None"
      using False Cons.prems(2) by (simp add: map_of_zip_is_None)
    have hd_ok: "map_of (zip ord fmts @ fmt_table (p # ps)) (name_of p) = Some ?f"
      using n tn by (simp add: fmt_table_def map_add_def)
    have "\<exists>p'. find (\<lambda>p'. map_of (zip (ord @ [n]) (fmts @ [?f]) @ fmt_table ps) (name_of p') \<noteq> Some (format p')) ps = Some p'
     \<and> e = DifferentFormats (name_of p')"
      using Cons.prems False by (intro Cons.IH[OF _ _ _ rec]) auto
    then show ?thesis unfolding tbl using hd_ok by simp
  next
    case True
    note some = mk_seen_Some[OF Cons.prems(2,3) True]
    have sh: "map_of (zip ord fmts @ fmt_table (p # ps)) = map_of (zip ord fmts @ fmt_table ps)"
    proof -
      have "n \<in> fst ` set (zip ord fmts)"
        using True Cons.prems(2) by (simp add: fst_set_zip)
      from map_of_shadow[OF this, of ?f "fmt_table ps"] n show ?thesis
        by (simp add: fmt_table_def)
    qed
    have hd_val: "map_of (zip ord fmts @ fmt_table ps) n = Some (fmts ! index_of ord n)"
      using some(2) by (simp add: map_add_def)
    show ?thesis
    proof (cases "fmts ! index_of ord n = ?f")
      case False
      then have "e = DifferentFormats n"
        using Cons.prems(4) n some(1) by simp
      then show ?thesis unfolding sh using n hd_val False by simp
    next
      case eq: True
      have rec: "pg_named ps (mk_seen ord fmts) ord
            (chunks @ [pre p, marker (Suc (index_of ord n))]) fmts = Inl e"
        using Cons.prems(4) n some(1) eq by simp
      have "\<exists>p'. find (\<lambda>p'. map_of (zip ord fmts @ fmt_table ps) (name_of p') \<noteq> Some (format p')) ps = Some p'
         \<and> e = DifferentFormats (name_of p')"
        using Cons.prems by (intro Cons.IH[OF _ _ _ rec]) auto
      then show ?thesis unfolding sh using n hd_val eq by simp
    qed
  qed
qed

lemma mk_seen_Nil [simp]: "mk_seen [] [] = []"
  by (simp add: mk_seen_def)

lemma pg_named_result:
  assumes "list_all (\<lambda>p. is_str (item p)) ps"
  shows "pg_named ps [] [] [] [] =
     (case find (\<lambda>p. map_of (fmt_table ps) (name_of p) \<noteq> Some (format p)) ps of
        Some p \<Rightarrow> Inl (DifferentFormats (name_of p))
      | None \<Rightarrow>
          Inr (first_occurrences (map name_of ps),
               concat (map (\<lambda>p. [pre p, marker (Suc (index_of (first_occurrences (map name_of ps)) (name_of p)))]) ps),
               map (\<lambda>n. the (map_of (fmt_table ps) n)) (first_occurrences (map name_of ps))))"
proof (cases "pg_named ps [] [] [] []")
  case (Inl e)
  from pg_named_fail[OF assms, of "[]" "[]" "[]" e] Inl
  show ?thesis by auto
next
  case (Inr r)
  obtain ord' chunks' fmts' where r: "r = (ord', chunks', fmts')" by (cases r) auto
  from pg_named_ok[OF assms, of "[]" "[]" "[]" ord' chunks' fmts'] Inr r
  have ok: "ord' = first_occurrences (map name_of ps)"
    "fmts' = map (\<lambda>n. the (map_of (fmt_table ps) n)) (first_occurrences (map name_of ps))"
    "chunks' = concat (map (\<lambda>p. [pre p, marker (Suc (index_of ord' (name_of p)))]) ps)"
    "\<forall>p\<in>set ps. map_of (fmt_table ps) (name_of p) = Some (format p)"
    by auto
  from ok(4) have "find (\<lambda>p. map_of (fmt_table ps) (name_of p) \<noteq> Some (format p)) ps = None"
    by (simp add: find_None_iff)
  with Inr r ok show ?thesis by simp
qed

lemma split_loop_errors:
  "split_loop enc c q toks i pht rv = Inl e \<Longrightarrow>
   e \<in> {IndexError, UnicodeDecodeError, IncompletePercent, MixedPlaceholders, KeyError}
   \<or> (\<exists>s. e = IncompletePlaceholder s) \<or> (\<exists>s. e = UnsupportedPlaceholder s)"
proof (induction enc c q toks i pht rv rule: split_loop.induct)
  case (1 enc collapse query i phtype rv)
  then show ?case by simp
next
  case (2 enc collapse query pre0 rest i phtype rv)
  then show ?case by simp
next
  case (3 enc collapse query pre0 m rest i phtype rv)
  show ?case
  proof (cases "group0 m = ''%%''")
    case True
    show ?thesis
    proof (cases rest)
      case Nil
      with 3(3) True show ?thesis by (simp add: Let_def)
    next
      case (Cons t rest')
      obtain pre1 m1 where t: "t = (pre1, m1)" by (cases t) auto
      from 3(3) True Cons t have "split_loop enc collapse query ((pre0 @ (if collapse then ''%'' else group0 m) @ pre1, m1) # rest') i phtype rv = Inl e"
        by (cases collapse) (simp_all add: Let_def)
      from 3(1)[OF refl True _ refl this] Cons t show ?thesis by simp
    qed
  next
    case False
    show ?thesis
    proof (cases "group0 m = ''%('' \<or> group0 m = ''% '' \<or> \<not> in_sbt (last_slice (group0 m))")
      case True
      with 3(3) False show ?thesis
        by (auto simp: Let_def first_field_def decode_def split: if_splits sum.splits option.splits)
    next
      case nf: False
      show ?thesis
      proof (cases "item_of enc m i")
        case (Inl e')
        then have "e' = UnicodeDecodeError"
          by (auto simp: item_of_def decode_def split: option.splits if_splits sum.splits)
        with 3(3) False nf Inl show ?thesis by (simp add: Let_def)
      next
        case (Inr it)
        show ?thesis
        proof (cases "phtype \<noteq> None \<and> phtype \<noteq> Some (type_of it)")
          case True
          with 3(3) False nf Inr show ?thesis by (simp add: Let_def)
        next
          case pt: False
          show ?thesis
          proof (cases "ph_to_fmt (last_slice (group0 m))")
            case None
            with 3(3) False nf Inr pt show ?thesis by (auto simp: Let_def split: if_splits)
          next
            case (Some f)
            with 3(3) False nf Inr pt have
              "split_loop enc collapse query rest (Suc i) (Some (type_of it)) (rv @ [QueryPart pre0 it f]) = Inl e"
              by (auto simp: Let_def split: if_splits)
            from 3(2)[OF refl False _ _ _ Inr pt Some this] nf show ?thesis by simp
          qed
        qed
      qed
    qed
  qed
qed

lemma matches_of_simps [simp]:
  "matches_of [] = []"
  "matches_of ((p, None) # rest) = []"
  "matches_of ((p, Some m) # rest) = m # matches_of rest"
  by (simp_all add: matches_of_def)

lemma matches_of_fragments [simp]: "matches_of (fragments q cur ms) = ms"
  by (induction ms arbitrary: cur) auto

lemma split_loop_formats:
  "split_loop enc c q toks i pht rv = Inr ps \<Longrightarrow>
   map format ps = map format rv @ map fmt_of (filter (\<lambda>m. group0 m \<noteq> ''%%'') (matches_of toks))
      @ (if \<exists>t\<in>set toks. snd t = None then [AUTO] else [])"
proof (induction enc c q toks i pht rv arbitrary: ps rule: split_loop.induct)
  case (1 enc collapse query i phtype rv)
  then show ?case by auto
next
  case (2 enc collapse query pre0 rest i phtype rv)
  then show ?case by auto
next
  case (3 enc collapse query pre0 m rest i phtype rv)
  show ?case
  proof (cases "group0 m = ''%%''")
    case True
    then obtain pre1 m1 rest' where r: "rest = (pre1, m1) # rest'"
      using 3(3) by (cases rest) (auto simp: Let_def)
    from 3(3) True r have "split_loop enc collapse query ((pre0 @ (if collapse then ''%'' else group0 m) @ pre1, m1) # rest') i phtype rv = Inr ps"
      by (cases collapse) (simp_all add: Let_def)
    from 3(1)[OF refl True r refl this] show ?thesis
      using r True by (cases m1) auto
  next
    case False
    from 3(3) False obtain it f where
      it: "item_of enc m i = Inr it"
      and pt: "phtype = None \<or> phtype = Some (type_of it)"
      and f: "ph_to_fmt (last_slice (group0 m)) = Some f"
      and rec: "split_loop enc collapse query rest (Suc i) (Some (type_of it)) (rv @ [QueryPart pre0 it f]) = Inr ps"
      by (auto simp: Let_def split: if_splits sum.splits option.splits)
    have n1: "group0 m \<noteq> ''%(''" "group0 m \<noteq> ''% ''" "\<not> \<not> in_sbt (last_slice (group0 m))"
      using 3(3) False by (auto simp: Let_def split: if_splits sum.splits option.splits)
    have n2: "\<not> (phtype \<noteq> None \<and> phtype \<noteq> Some (type_of it))" using pt by auto
    from 3(2)[OF refl False n1 it n2 f rec] False f
    show ?thesis by (auto simp: fmt_of_def)
  qed
qed

lemma split_query_formats:
  assumes "split_query q enc c = Inr ps"
  shows "map format (butlast ps) = map fmt_of (placeholders q)"
proof -
  obtain front p where fr: "fragments q 0 (finditer q) = front @ [(p, None)]"
    using fragments_shape by blast
  then have ex: "\<exists>t\<in>set (fragments q 0 (finditer q)). snd t = None" by auto
  from split_loop_formats[OF assms[unfolded split_query_def]] ex
  have "map format ps = map fmt_of (placeholders q) @ [AUTO]"
    by (simp add: placeholders_def)
  then show ?thesis by (metis butlast_snoc map_butlast)
qed

lemma split_query_kind:
  assumes "split_query q enc c = Inr ps"
  shows "ps \<noteq> []"
    and "item (last ps) = Index 0"
    and "is_int (item (hd ps)) \<Longrightarrow> map item (butlast ps) = map Index [0..<length ps - 1]"
    and "is_str (item (hd ps)) \<Longrightarrow> butlast ps \<noteq> [] \<and> list_all (\<lambda>p. is_str (item p)) (butlast ps)"
proof -
  from split_query_shape[OF assms] obtain new fin where
    ps: "ps = new @ [fin]" and fin: "item fin = Index 0" and
    k: "map item new = map Index [0..<length new] \<or> list_all (\<lambda>p. is_str (item p)) new"
    by blast
  show "ps \<noteq> []" using ps by simp
  show "item (last ps) = Index 0" using ps fin by simp
  show "map item (butlast ps) = map Index [0..<length ps - 1]" if "is_int (item (hd ps))"
  proof (cases new)
    case Nil
    with ps show ?thesis by simp
  next
    case (Cons p0 rest)
    with that ps have "\<not> list_all (\<lambda>p. is_str (item p)) new" by (cases "item p0") auto
    with k ps show ?thesis by simp
  qed
  show "butlast ps \<noteq> [] \<and> list_all (\<lambda>p. is_str (item p)) (butlast ps)" if "is_str (item (hd ps))"
  proof (cases new)
    case Nil
    with ps fin that show ?thesis by simp
  next
    case (Cons p0 rest)
    with that ps positional_hd[of p0 rest] k show ?thesis by (cases "item p0") auto
  qed
qed

lemma concat_pairs:
  "concat (concat (map (\<lambda>p. [a p, b p]) xs) @ [l]) = concat (map (\<lambda>p. a p @ b p) xs) @ l"
  by (induction xs) auto

lemma map_by_index:
  assumes "map item xs = map Index [0..<length xs]"
  shows "map (\<lambda>p. g p (index_arg p)) xs = map (\<lambda>k. g (xs ! k) k) [0..<length xs]"
proof (rule nth_equalityI)
  show "length (map (\<lambda>p. g p (index_arg p)) xs) = length (map (\<lambda>k. g (xs ! k) k) [0..<length xs])"
    by simp
next
  fix i assume "i < length (map (\<lambda>p. g p (index_arg p)) xs)"
  then have i: "i < length xs" by simp
  then have "item (xs ! i) = map Index [0..<length xs] ! i"
    using assms by (metis nth_map)
  with i have "item (xs ! i) = Index i" by simp
  with i show "map (\<lambda>p. g p (index_arg p)) xs ! i = map (\<lambda>k. g (xs ! k) k) [0..<length xs] ! i"
    by simp
qed

lemma positional_all_int:
  "map item xs = map Index [0..<length xs] \<Longrightarrow> list_all (\<lambda>p. is_int (item p)) xs"
proof -
  assume a: "map item xs = map Index [0..<length xs]"
  have "\<forall>p\<in>set xs. is_int (item p)"
  proof
    fix p assume "p \<in> set xs"
    then have "item p \<in> set (map item xs)" by simp
    with a have "item p \<in> set (map Index [0..<length xs])" by simp
    then show "is_int (item p)" by auto
  qed
  then show ?thesis by (simp add: list_all_iff)
qed

lemma client_result:
  assumes "split_query q enc False = Inr ps"
  shows "query2pg_client_nocache q enc =
     Inr (concat (map (\<lambda>p. pre p @ ''%s'') (butlast ps)) @ pre (last ps),
          (if is_int (item (hd ps)) then None else Some (map name_of (butlast ps))), ps)"
proof -
  note k = split_query_kind[OF assms]
  obtain p0 rest where ps: "ps = p0 # rest" using k(1) by (cases ps) auto
  show ?thesis
  proof (cases "item p0")
    case (Index j)
    then have "is_int (item (hd ps))" using ps by simp
    from k(3)[OF this] have "map item (butlast ps) = map Index [0..<length (butlast ps)]" by simp
    from client_positional_acc[OF positional_all_int[OF this], of "[]"]
    have "client_positional (butlast ps) [] = Inr (concat (map (\<lambda>p. [pre p, ''%s'']) (butlast ps)))"
      by simp
    with Index ps concat_pairs[of pre "\<lambda>p. ''%s''" "butlast ps" "pre (last ps)"]
    show ?thesis
      unfolding query2pg_client_nocache_def assms by simp
  next
    case (Name n)
    then have "is_str (item (hd ps))" using ps by simp
    from k(4)[OF this] have "list_all (\<lambda>p. is_str (item p)) (butlast ps)" by simp
    from client_named_acc[OF this, of "[]" "[]" "[]"]
    have "client_named (butlast ps) [] [] [] =
       Inr (map name_of (butlast ps), concat (map (\<lambda>p. [pre p, ''%s'']) (butlast ps)))"
      by simp
    with Name ps concat_pairs[of pre "\<lambda>p. ''%s''" "butlast ps" "pre (last ps)"]
    show ?thesis
      unfolding query2pg_client_nocache_def assms by simp
  qed
qed

lemma client_no_conflict: "query2pg_client_nocache q enc \<noteq> Inl (DifferentFormats n)"
proof (cases "split_query q enc False")
  case (Inl e)
  then have "query2pg_client_nocache q enc = Inl e"
    by (simp add: query2pg_client_nocache_def)
  moreover from split_loop_errors[OF Inl[unfolded split_query_def]]
  have "e \<noteq> DifferentFormats n" by auto
  ultimately show ?thesis by simp
next
  case (Inr ps)
  from client_result[OF this] show ?thesis by simp
qed

lemma server_named_result:
  assumes "split_query q enc True = Inr ps" and "is_str (item (hd ps))"
  shows "query2pg_nocache q enc =
     (case find (\<lambda>p. map_of (fmt_table (butlast ps)) (name_of p) \<noteq> Some (format p)) (butlast ps) of
        Some p \<Rightarrow> Inl (DifferentFormats (name_of p))
      | None \<Rightarrow>
          Inr (concat (map (\<lambda>p. pre p @ marker (Suc (index_of (first_occurrences (map name_of (butlast ps))) (name_of p))))
                        (butlast ps)) @ pre (last ps),
               map (\<lambda>n. the (map_of (fmt_table (butlast ps)) n)) (first_occurrences (map name_of (butlast ps))),
               Some (first_occurrences (map name_of (butlast ps))), ps))"
proof -
  note k = split_query_kind[OF assms(1)]
  obtain p0 rest where ps: "ps = p0 # rest" using k(1) by (cases ps) auto
  obtain n where n: "item p0 = Name n" using assms(2) ps by (cases "item p0") auto
  from k(4)[OF assms(2)] have named: "list_all (\<lambda>p. is_str (item p)) (butlast ps)" by simp
  note r = pg_named_result[OF named]
  show ?thesis
  proof (cases "find (\<lambda>p. map_of (fmt_table (butlast ps)) (name_of p) \<noteq> Some (format p)) (butlast ps)")
    case None
    with r n ps
      concat_pairs[of pre "\<lambda>p. marker (Suc (index_of (first_occurrences (map name_of (butlast ps))) (name_of p)))"
        "butlast ps" "pre (last ps)"]
    show ?thesis
      unfolding query2pg_nocache_def assms(1) by simp
  next
    case (Some p)
    with r n ps show ?thesis
      unfolding query2pg_nocache_def assms(1) by simp
  qed
qed

lemma first_occurrences_Nil_iff [simp]: "first_occurrences xs = [] \<longleftrightarrow> xs = []"
  by (cases xs) auto

lemma validate_mapping_named:
  assumes "is_str (item (hd ps))" and "names \<noteq> []"
  shows "validate_and_reorder_params ps (PyMapping m) (Some names) =
     (if \<forall>n\<in>set names. map_of m n \<noteq> None then Inr (map (\<lambda>n. the (map_of m n)) names)
      else Inl (MissingParams (sort (filter (\<lambda>n. map_of m n = None) names))))"
  using assms by (simp add: validate_and_reorder_params_def those_map)

subsection \<open>The caches and the objects\<close>

lemma lru_call_sound:
  assumes "cache_sound f c"
  shows "fst (lru_call f c k) = f k" and "cache_sound f (snd (lru_call f c k))"
proof -
  have all: "\<forall>e\<in>set c. f (fst e) = Inr (snd e)"
    using assms by (simp add: cache_sound_def list_all_iff)
  show "fst (lru_call f c k) = f k"
  proof (cases "map_of c k")
    case None
    then show ?thesis by (simp add: lru_call_def split: sum.splits)
  next
    case (Some r)
    then have "(k, r) \<in> set c" by (rule map_of_SomeD)
    with all have "f k = Inr r" by fastforce
    with Some show ?thesis by (simp add: lru_call_def)
  qed
  show "cache_sound f (snd (lru_call f c k))"
  proof (cases "map_of c k")
    case None
    show ?thesis
    proof (cases "f k")
      case (Inl e)
      with None assms show ?thesis by (simp add: lru_call_def)
    next
      case (Inr r)
      have "\<forall>e\<in>set (take lru_maxsize ((k, r) # c)). f (fst e) = Inr (snd e)"
        using all Inr by (auto dest!: in_set_takeD)
      with None Inr show ?thesis by (simp add: lru_call_def cache_sound_def list_all_iff)
    qed
  next
    case (Some r)
    then have "(k, r) \<in> set c" by (rule map_of_SomeD)
    with all have "f k = Inr r" by fastforce
    with Some all show ?thesis by (auto simp: lru_call_def cache_sound_def list_all_iff)
  qed
qed

lemma query2pg_sound:
  assumes "caches_sound cs"
  shows "fst (query2pg cs b enc) = query2pg_nocache b enc"
    and "caches_sound (snd (query2pg cs b enc))"
    and "client_cache (snd (query2pg cs b enc)) = client_cache cs"
  using assms lru_call_sound[of "\<lambda>(q, e). query2pg_nocache q e" "pg_cache cs" "(b, enc)"]
  by (auto simp: query2pg_def caches_sound_def split: prod.splits)

lemma query2pg_client_sound:
  assumes "caches_sound cs"
  shows "fst (query2pg_client cs b enc) = query2pg_client_nocache b enc"
    and "caches_sound (snd (query2pg_client cs b enc))"
    and "pg_cache (snd (query2pg_client cs b enc)) = pg_cache cs"
  using assms lru_call_sound[of "\<lambda>(q, e). query2pg_client_nocache q e" "client_cache cs" "(b, enc)"]
  by (auto simp: query2pg_client_def caches_sound_def split: prod.splits)

lemma client_dump_keeps: "client_dump s vars = Inr s' \<Longrightarrow> types s' = types s \<and> formats s' = formats s"
  by (auto simp: client_dump_def split: option.splits sum.splits)

lemma client_convert_keeps:
  "client_convert cs s q vars = (Inr s', cs') \<Longrightarrow> types s' = types s \<and> formats s' = formats s"
  by (auto simp: client_convert_def split: option.splits sum.splits prod.splits if_splits
      dest!: client_dump_keeps)

lemma client_reachable_types: "client_reachable s \<Longrightarrow> types s = [] \<and> formats s = None"
proof (induction rule: client_reachable.induct)
  case (reach_init t)
  show ?case by (simp add: client_init_def init_def PostgresQuery.extend_def)
next
  case (reach_convert s cs q vars s' cs')
  then show ?case using client_convert_keeps by metis
next
  case (reach_dump s vars s')
  then show ?case using client_dump_keeps by metis
qed

lemma lru_call_stores:
  assumes "cache_sound f c" and "f k = Inr r"
  shows "map_of (snd (lru_call f c k)) k = Some r"
proof (cases "map_of c k")
  case None
  with assms(2) show ?thesis by (simp add: lru_call_def lru_maxsize_def)
next
  case (Some r')
  then have "(k, r') \<in> set c" by (rule map_of_SomeD)
  with assms have "r' = r" by (fastforce simp: cache_sound_def list_all_iff)
  with Some show ?thesis by (simp add: lru_call_def)
qed

lemma caches_sound_empty: "caches_sound no_caches"
  by (simp add: caches_sound_def cache_sound_def no_caches_def)

lemma query2pg_stores:
  assumes "caches_sound cs" and "query2pg_nocache b enc = Inr r"
  shows "map_of (pg_cache (snd (query2pg cs b enc))) (b, enc) = Some r"
  using assms lru_call_stores[of "\<lambda>(q, e). query2pg_nocache q e" "pg_cache cs" "(b, enc)" r]
  by (auto simp: query2pg_def caches_sound_def split: prod.splits)

lemma query2pg_client_stores:
  assumes "caches_sound cs" and "query2pg_client_nocache b enc = Inr r"
  shows "map_of (client_cache (snd (query2pg_client cs b enc))) (b, enc) = Some r"
  using assms lru_call_stores[of "\<lambda>(q, e). query2pg_client_nocache q e" "client_cache cs" "(b, enc)" r]
  by (auto simp: query2pg_client_def caches_sound_def split: prod.splits)

lemma convert_cached:
  assumes "caches_sound cs" and "bquery_of self q = Inr bq" and "py_len vs = Inr n"
  shows "fst (convert cs self q (Some vs)) =
          (case query2pg_nocache bq (encoding self) of
             Inl e \<Rightarrow> Inl e
           | Inr (rq, fs, ord, ps) \<Rightarrow>
               dump (self\<lparr>query := rq, want_formats := Some fs, order := ord, parts := Some ps\<rparr>)
                 (Some vs))"
    and "snd (convert cs self q (Some vs)) =
          (if length bq \<le> 4096 \<and> n \<le> 50 then snd (query2pg cs bq (encoding self)) else cs)"
proof -
  note s = query2pg_sound[OF assms(1), of bq "encoding self"]
  obtain r cs' where c: "query2pg cs bq (encoding self) = (r, cs')"
    by (cases "query2pg cs bq (encoding self)") auto
  with s(1) have r: "r = query2pg_nocache bq (encoding self)" by simp
  show "fst (convert cs self q (Some vs)) =
          (case query2pg_nocache bq (encoding self) of
             Inl e \<Rightarrow> Inl e
           | Inr (rq, fs, ord, ps) \<Rightarrow>
               dump (self\<lparr>query := rq, want_formats := Some fs, order := ord, parts := Some ps\<rparr>)
                 (Some vs))"
    using assms(2,3) c r
    by (auto simp: convert_def use_cache_def split: sum.splits prod.splits)
  show "snd (convert cs self q (Some vs)) =
          (if length bq \<le> 4096 \<and> n \<le> 50 then snd (query2pg cs bq (encoding self)) else cs)"
    using assms(2,3) c r
    by (auto simp: convert_def use_cache_def MAX_CACHED_STATEMENT_LENGTH_def
        MAX_CACHED_STATEMENT_PARAMS_def split: sum.splits prod.splits)
qed

lemma client_convert_cached:
  assumes "caches_sound cs" and "bquery_of self q = Inr bq" and "py_len vs = Inr n"
  shows "fst (client_convert cs self q (Some vs)) =
          (case query2pg_client_nocache bq (encoding self) of
             Inl e \<Rightarrow> Inl e
           | Inr (t, ord, ps) \<Rightarrow>
               client_dump (self\<lparr>template := Some t, order := ord, parts := Some ps\<rparr>) (Some vs))"
    and "snd (client_convert cs self q (Some vs)) =
          (if length bq \<le> 4096 \<and> n \<le> 50 then snd (query2pg_client cs bq (encoding self)) else cs)"
proof -
  note s = query2pg_client_sound[OF assms(1), of bq "encoding self"]
  obtain r cs' where c: "query2pg_client cs bq (encoding self) = (r, cs')"
    by (cases "query2pg_client cs bq (encoding self)") auto
  with s(1) have r: "r = query2pg_client_nocache bq (encoding self)" by simp
  show "fst (client_convert cs self q (Some vs)) =
          (case query2pg_client_nocache bq (encoding self) of
             Inl e \<Rightarrow> Inl e
           | Inr (t, ord, ps) \<Rightarrow>
               client_dump (self\<lparr>template := Some t, order := ord, parts := Some ps\<rparr>) (Some vs))"
    using assms(2,3) c r
    by (auto simp: client_convert_def use_cache_def split: sum.splits prod.splits)
  show "snd (client_convert cs self q (Some vs)) =
          (if length bq \<le> 4096 \<and> n \<le> 50 then snd (query2pg_client cs bq (encoding self)) else cs)"
    using assms(2,3) c r
    by (auto simp: client_convert_def use_cache_def MAX_CACHED_STATEMENT_LENGTH_def
        MAX_CACHED_STATEMENT_PARAMS_def split: sum.splits prod.splits)
qed

section \<open>The claims\<close>

lemmas scan_defs =
  split_query_def finditer_def re_match_def named_alt_def dot_def not_rparen_def
  last_slice_def in_sbt_def item_of_def ph_to_fmt_def first_field_def is_space_def
  decode_def ascii_def is_ascii_def

subsection \<open>Positional placeholders in the server-bind query\<close>

text \<open>
  C1. For a query whose scan succeeds with positional placeholders only (the first part's
  item is an index; this includes a query without placeholders): the items of the parts
  are \<open>0, 1, \<dots>\<close> in order, as many as the query has placeholder occurrences, the escapes
  \<^verbatim>\<open>%%\<close> not counted; the rewritten query is the prefix of each part followed by the marker
  of its position counted from one, then the last prefix; the formats are those of the
  placeholder occurrences in order, and no name order is returned.
\<close>

theorem positional_markers:
  assumes "split_query q enc True = Inr ps" and "is_int (item (hd ps))"
  shows "map item (butlast ps) = map Index [0..<length ps - 1]
     \<and> length ps - 1 = length (placeholders q)
     \<and> query2pg_nocache q enc =
         Inr (concat (map (\<lambda>k. pre (ps ! k) @ marker (Suc k)) [0..<length ps - 1]) @ pre (last ps),
              map fmt_of (placeholders q), None, ps)"
proof -
  note k = split_query_kind[OF assms(1)]
  have items: "map item (butlast ps) = map Index [0..<length ps - 1]" by (rule k(3)[OF assms(2)])
  then have items': "map item (butlast ps) = map Index [0..<length (butlast ps)]" by simp
  have fm: "map format (butlast ps) = map fmt_of (placeholders q)"
    by (rule split_query_formats[OF assms(1)])
  then have len: "length ps - 1 = length (placeholders q)"
    by (metis length_butlast length_map)
  obtain p0 rest where ps: "ps = p0 # rest" using k(1) by (cases ps) auto
  obtain j where j: "item p0 = Index j" using assms(2) ps by (cases "item p0") auto
  have loop: "pg_positional (butlast ps) [] [] =
     Inr (concat (map (\<lambda>p. [pre p, marker (Suc (index_arg p))]) (butlast ps)), map format (butlast ps))"
    using pg_positional_acc[OF positional_all_int[OF items'], of "[]" "[]"] by simp
  have "map (\<lambda>p. pre p @ marker (Suc (index_arg p))) (butlast ps)
     = map (\<lambda>k. pre (butlast ps ! k) @ marker (Suc k)) [0..<length (butlast ps)]"
    by (rule map_by_index[OF items', of "\<lambda>p k. pre p @ marker (Suc k)"])
  also have "\<dots> = map (\<lambda>k. pre (ps ! k) @ marker (Suc k)) [0..<length ps - 1]"
    by (auto simp: nth_butlast)
  finally have eq: "map (\<lambda>p. pre p @ marker (Suc (index_arg p))) (butlast ps)
     = map (\<lambda>k. pre (ps ! k) @ marker (Suc k)) [0..<length ps - 1]" .
  have chunks: "concat (concat (map (\<lambda>p. [pre p, marker (Suc (index_arg p))]) (butlast ps)) @ [pre (last ps)])
     = concat (map (\<lambda>k. pre (ps ! k) @ marker (Suc k)) [0..<length ps - 1]) @ pre (last ps)"
    unfolding eq[symmetric] by (rule concat_pairs)
  have "query2pg_nocache q enc =
         Inr (concat (map (\<lambda>k. pre (ps ! k) @ marker (Suc k)) [0..<length ps - 1]) @ pre (last ps),
              map fmt_of (placeholders q), None, ps)"
    unfolding query2pg_nocache_def assms(1) using ps j loop[unfolded ps] chunks[unfolded ps] fm[unfolded ps]
    by simp
  with items len show ?thesis by blast
qed

text \<open>Two placeholders around two escapes: the second placeholder is \<^verbatim>\<open>$2\<close>.\<close>

theorem positional_markers_witness:
  "split_query ''%% %s %% %t'' ascii True
     = Inr [QueryPart ''% '' (Index 0) AUTO, QueryPart '' % '' (Index 1) TEXT,
            QueryPart [] (Index 0) AUTO]
   \<and> query2pg_nocache ''%% %s %% %t'' ascii
     = Inr (''% $1 % $2'', [AUTO, TEXT], None,
            [QueryPart ''% '' (Index 0) AUTO, QueryPart '' % '' (Index 1) TEXT,
             QueryPart [] (Index 0) AUTO])
   \<and> length (placeholders ''%% %s %% %t'') = 2"
proof -
  have h: "split_query ''%% %s %% %t'' ascii True
     = Inr [QueryPart ''% '' (Index 0) AUTO, QueryPart '' % '' (Index 1) TEXT,
            QueryPart [] (Index 0) AUTO]"
    by (simp add: scan_defs)
  have d: "marker (Suc 0) = ''$1''" "marker (Suc (Suc 0)) = ''$2''"
    by (simp_all add: marker_def digit_char_def)
  have g: "map fmt_of (placeholders ''%% %s %% %t'') = [AUTO, TEXT]"
    by (simp add: placeholders_def fmt_of_def scan_defs)
  have l: "length (placeholders ''%% %s %% %t'') = 2"
    by (simp add: placeholders_def scan_defs)
  from positional_markers[OF h] have
    "query2pg_nocache ''%% %s %% %t'' ascii =
       Inr (concat (map (\<lambda>k. pre ([QueryPart ''% '' (Index 0) AUTO,
               QueryPart '' % '' (Index 1) TEXT, QueryPart [] (Index 0) AUTO] ! k) @ marker (Suc k))
             [0, Suc 0]) @ [],
            map fmt_of (placeholders ''%% %s %% %t''), None,
            [QueryPart ''% '' (Index 0) AUTO, QueryPart '' % '' (Index 1) TEXT,
             QueryPart [] (Index 0) AUTO])"
    by (simp add: upt_rec)
  then show ?thesis using h l by (simp add: d g)
qed

subsection \<open>Named placeholders in the server-bind query\<close>

text \<open>
  C2. For a query whose scan succeeds with named placeholders. When some occurrence of a
  name has a format other than the first occurrence of that name (\<open>map_of\<close> of the format
  table reads the first), the assembler fails with the conflicting-format error for the
  name of the first such occurrence. Otherwise the names in the order of their first
  occurrence are the name order, the marker of every occurrence of a name is one more than
  the position of the name in that order, and the formats are those of the first
  occurrences. The client-bind assembler never fails with the conflicting-format error,
  whatever the query.
\<close>

theorem named_markers:
  assumes "split_query q enc True = Inr ps" and "is_str (item (hd ps))"
  shows "query2pg_nocache q enc =
     (case find (\<lambda>p. map_of (fmt_table (butlast ps)) (name_of p) \<noteq> Some (format p)) (butlast ps) of
        Some p \<Rightarrow> Inl (DifferentFormats (name_of p))
      | None \<Rightarrow>
          Inr (concat (map (\<lambda>p. pre p @ marker (Suc (index_of (first_occurrences (map name_of (butlast ps))) (name_of p))))
                        (butlast ps)) @ pre (last ps),
               map (\<lambda>n. the (map_of (fmt_table (butlast ps)) n)) (first_occurrences (map name_of (butlast ps))),
               Some (first_occurrences (map name_of (butlast ps))), ps))
     \<and> (\<forall>q' enc' n. query2pg_client_nocache q' enc' \<noteq> Inl (DifferentFormats n))"
  using server_named_result[OF assms] client_no_conflict by blast

text \<open>
  Scenario B of the specification, \<open>a\<close> twice and \<open>b\<close> once, and a query that asks for \<open>a\<close>
  in two formats.
\<close>

theorem named_markers_witness:
  "query2pg_nocache ''SELECT %(a)s, %(a)s, %(b)t'' ascii
     = Inr (''SELECT $1, $1, $2'', [AUTO, TEXT], Some [''a'', ''b''],
            [QueryPart ''SELECT '' (Name ''a'') AUTO, QueryPart '', '' (Name ''a'') AUTO,
             QueryPart '', '' (Name ''b'') TEXT, QueryPart [] (Index 0) AUTO])
   \<and> query2pg_nocache ''%(a)s %(b)s %(a)t'' ascii = Inl (DifferentFormats ''a'')"
proof -
  have h1: "split_query ''SELECT %(a)s, %(a)s, %(b)t'' ascii True
     = Inr [QueryPart ''SELECT '' (Name ''a'') AUTO, QueryPart '', '' (Name ''a'') AUTO,
            QueryPart '', '' (Name ''b'') TEXT, QueryPart [] (Index 0) AUTO]"
    by (simp add: scan_defs)
  have h2: "split_query ''%(a)s %(b)s %(a)t'' ascii True
     = Inr [QueryPart [] (Name ''a'') AUTO, QueryPart '' '' (Name ''b'') AUTO,
            QueryPart '' '' (Name ''a'') TEXT, QueryPart [] (Index 0) AUTO]"
    by (simp add: scan_defs)
  have d: "marker (Suc 0) = ''$1''" "marker (Suc (Suc 0)) = ''$2''"
    by (simp_all add: marker_def digit_char_def)
  from named_markers[OF h1] named_markers[OF h2] show ?thesis
    by (simp add: fmt_table_def name_of_def d)
qed

subsection \<open>Validation of a sequence of parameters\<close>

text \<open>
  C7. For a parsed query (the parts the scanner returns for a query, in either mode) and
  a sequence of parameters: when the length of the sequence differs from the number of
  placeholders, \<open>length ps - 1\<close>, validation fails with the count-mismatch error, which
  carries both numbers; when the length matches, the sequence is not empty and the
  placeholders are named, it fails with the error that named placeholders require a
  mapping; otherwise the sequence is returned as it is.
\<close>

theorem validate_sequence:
  assumes "split_query q enc c = Inr ps"
  shows "validate_and_reorder_params ps (PySequence vs) ord =
     (if length vs \<noteq> length ps - 1 then
        Inl (CountMismatch (int (length ps) - 1) (int (length vs)))
      else if vs \<noteq> [] \<and> list_all (\<lambda>p. is_str (item p)) (butlast ps) then
        Inl NamedRequireMapping
      else Inr vs)"
proof -
  from split_query_shape[OF assms] obtain new fin where
    ps: "ps = new @ [fin]" and
    k: "map item new = map Index [0..<length new] \<or> list_all (\<lambda>p. is_str (item p)) new"
    by blast
  show ?thesis
  proof (cases new)
    case Nil
    with ps show ?thesis by (auto simp: validate_and_reorder_params_def)
  next
    case (Cons p0 rest)
    have "is_int (item p0) \<longleftrightarrow> \<not> list_all (\<lambda>p. is_str (item p)) new"
      using k Cons positional_hd[of p0 rest] by (cases "item p0") auto
    with ps Cons show ?thesis
      by (auto simp: validate_and_reorder_params_def)
  qed
qed

text \<open>
  The three outcomes at concrete queries: two parameters for one placeholder, a sequence
  for a named placeholder, and two parameters for two positional placeholders.
\<close>

theorem validate_sequence_witness:
  "split_query ''a = %s'' ascii True
     = Inr [QueryPart ''a = '' (Index 0) AUTO, QueryPart [] (Index 0) AUTO]
   \<and> validate_and_reorder_params
       [QueryPart ''a = '' (Index 0) AUTO, QueryPart [] (Index 0) AUTO]
       (PySequence [1 :: int, 2]) None = Inl (CountMismatch 1 2)
   \<and> split_query ''a = %(x)s'' ascii True
     = Inr [QueryPart ''a = '' (Name ''x'') AUTO, QueryPart [] (Index 0) AUTO]
   \<and> validate_and_reorder_params
       [QueryPart ''a = '' (Name ''x'') AUTO, QueryPart [] (Index 0) AUTO]
       (PySequence [1 :: int]) (Some [''x'']) = Inl NamedRequireMapping
   \<and> split_query ''%s, %b'' ascii False
     = Inr [QueryPart [] (Index 0) AUTO, QueryPart '', '' (Index 1) BINARY,
            QueryPart [] (Index 0) AUTO]
   \<and> validate_and_reorder_params
       [QueryPart [] (Index 0) AUTO, QueryPart '', '' (Index 1) BINARY,
        QueryPart [] (Index 0) AUTO]
       (PySequence [7 :: int, 8]) None = Inr [7, 8]"
proof -
  have h1: "split_query ''a = %s'' ascii True
     = Inr [QueryPart ''a = '' (Index 0) AUTO, QueryPart [] (Index 0) AUTO]"
    by (simp add: scan_defs)
  have h2: "split_query ''a = %(x)s'' ascii True
     = Inr [QueryPart ''a = '' (Name ''x'') AUTO, QueryPart [] (Index 0) AUTO]"
    by (simp add: scan_defs)
  have h3: "split_query ''%s, %b'' ascii False
     = Inr [QueryPart [] (Index 0) AUTO, QueryPart '', '' (Index 1) BINARY,
            QueryPart [] (Index 0) AUTO]"
    by (simp add: scan_defs)
  show ?thesis
    using h1 h2 h3
      validate_sequence[OF h1, of "[1 :: int, 2]" None]
      validate_sequence[OF h2, of "[1 :: int]" "Some [''x'']"]
      validate_sequence[OF h3, of "[7 :: int, 8]" None]
    by simp
qed

subsection \<open>A mapping for positional placeholders\<close>

text \<open>
  C6, as the code has it. The check of the mapping branch is guarded by the truth value of
  the mapping: for a parsed query with at least one placeholder, all positional, a mapping
  that is not empty makes validation fail with the error that positional placeholders
  require a sequence.
\<close>

theorem validate_mapping_positional:
  assumes "split_query q enc c = Inr ps"
    and "length ps - 1 > 0"
    and "list_all (\<lambda>p. is_int (item p)) (butlast ps)"
    and "m \<noteq> []"
  shows "validate_and_reorder_params ps (PyMapping m) ord = Inl PositionalRequireSequence"
proof -
  from assms(2,3) have "\<not> is_str (item (hd ps))"
    by (cases ps; cases "tl ps"; cases "item (hd ps)") auto
  with assms show ?thesis
    by (auto simp: validate_and_reorder_params_def)
qed

text \<open>Scenario C of the specification: a mapping with the key \<open>x\<close> for one \<^verbatim>\<open>%s\<close>.\<close>

theorem validate_mapping_positional_witness:
  "split_query ''INSERT INTO t VALUES (%s)'' ascii True
     = Inr [QueryPart ''INSERT INTO t VALUES ('' (Index 0) AUTO, QueryPart '')'' (Index 0) AUTO]
   \<and> validate_and_reorder_params
       [QueryPart ''INSERT INTO t VALUES ('' (Index 0) AUTO, QueryPart '')'' (Index 0) AUTO]
       (PyMapping [(''x'', 1 :: int)]) None = Inl PositionalRequireSequence"
proof -
  have h: "split_query ''INSERT INTO t VALUES (%s)'' ascii True
     = Inr [QueryPart ''INSERT INTO t VALUES ('' (Index 0) AUTO, QueryPart '')'' (Index 0) AUTO]"
    by (simp add: scan_defs)
  show ?thesis
    using h validate_mapping_positional[OF h, of "[(''x'', 1 :: int)]" None]
    by simp
qed

text \<open>
  The claim as stated fails at the empty mapping: for the same query no error is raised
  and the empty tuple is returned.
\<close>

theorem validate_empty_mapping_positional:
  "query2pg_nocache ''INSERT INTO t VALUES (%s)'' ascii
     = Inr (''INSERT INTO t VALUES ($1)'', [AUTO], None,
            [QueryPart ''INSERT INTO t VALUES ('' (Index 0) AUTO, QueryPart '')'' (Index 0) AUTO])
   \<and> validate_and_reorder_params
       [QueryPart ''INSERT INTO t VALUES ('' (Index 0) AUTO, QueryPart '')'' (Index 0) AUTO]
       (PyMapping ([] :: (pystr \<times> int) list)) None = Inr []"
  by (simp add: query2pg_nocache_def scan_defs marker_def digit_char_def
      validate_and_reorder_params_def)

subsection \<open>A mapping for named placeholders\<close>

text \<open>
  C8. For a query with named placeholders, parsed by either assembler, and a mapping: when
  every name of the name order is a key, the result is the values of the names in that
  order; otherwise validation fails with one missing-parameter error that carries all the
  names of the name order that are not keys, sorted.
\<close>

theorem validate_mapping:
  assumes "query2pg_nocache q enc = Inr (rq, fmts, Some names, ps)
           \<or> query2pg_client_nocache q enc = Inr (rq, Some names, ps)"
  shows "validate_and_reorder_params ps (PyMapping m) (Some names) =
     (if \<forall>n\<in>set names. map_of m n \<noteq> None then Inr (map (\<lambda>n. the (map_of m n)) names)
      else Inl (MissingParams (sort (filter (\<lambda>n. map_of m n = None) names))))"
  using assms
proof
  assume a: "query2pg_nocache q enc = Inr (rq, fmts, Some names, ps)"
  then obtain ps' where sp: "split_query q enc True = Inr ps'"
    by (cases "split_query q enc True") (auto simp: query2pg_nocache_def)
  note k = split_query_kind[OF sp]
  obtain p0 rest where ps': "ps' = p0 # rest" using k(1) by (cases ps') auto
  have str: "is_str (item (hd ps'))"
  proof (cases "item p0")
    case (Index j)
    with a sp ps' show ?thesis
      by (auto simp: query2pg_nocache_def split: sum.splits prod.splits)
  next
    case (Name n)
    with ps' show ?thesis by simp
  qed
  from server_named_result[OF sp str] a
  have "ps = ps'" "names = first_occurrences (map name_of (butlast ps'))"
    by (auto split: option.splits)
  moreover have "butlast ps' \<noteq> []" using k(4)[OF str] by simp
  ultimately show ?thesis using str by (intro validate_mapping_named) auto
next
  assume a: "query2pg_client_nocache q enc = Inr (rq, Some names, ps)"
  then obtain ps' where sp: "split_query q enc False = Inr ps'"
    by (cases "split_query q enc False") (auto simp: query2pg_client_nocache_def)
  note k = split_query_kind[OF sp]
  from client_result[OF sp] a
  have e: "ps = ps'" "\<not> is_int (item (hd ps'))" "names = map name_of (butlast ps')"
    by (auto split: if_splits)
  then have str: "is_str (item (hd ps'))" by (cases "item (hd ps')") auto
  moreover have "butlast ps' \<noteq> []" using k(4)[OF str] by simp
  ultimately show ?thesis using e by (intro validate_mapping_named) auto
qed

text \<open>
  Scenario D of the specification, \<^verbatim>\<open>SELECT %(a)s\<close> with the empty mapping; a query with
  three names of which two are missing; and a mapping that has them all.
\<close>

theorem validate_mapping_witness:
  "query2pg_nocache ''SELECT %(a)s'' ascii
     = Inr (''SELECT $1'', [AUTO], Some [''a''],
            [QueryPart ''SELECT '' (Name ''a'') AUTO, QueryPart [] (Index 0) AUTO])
   \<and> validate_and_reorder_params
       [QueryPart ''SELECT '' (Name ''a'') AUTO, QueryPart [] (Index 0) AUTO]
       (PyMapping ([] :: (pystr \<times> int) list)) (Some [''a'']) = Inl (MissingParams [''a''])
   \<and> query2pg_client_nocache ''%(c)s %(b)s %(a)s'' ascii
     = Inr (''%s %s %s'', Some [''c'', ''b'', ''a''],
            [QueryPart [] (Name ''c'') AUTO, QueryPart '' '' (Name ''b'') AUTO,
             QueryPart '' '' (Name ''a'') AUTO, QueryPart [] (Index 0) AUTO])
   \<and> validate_and_reorder_params
       [QueryPart [] (Name ''c'') AUTO, QueryPart '' '' (Name ''b'') AUTO,
        QueryPart '' '' (Name ''a'') AUTO, QueryPart [] (Index 0) AUTO]
       (PyMapping [(''b'', 5 :: int)]) (Some [''c'', ''b'', ''a''])
     = Inl (MissingParams [''a'', ''c''])
   \<and> validate_and_reorder_params
       [QueryPart [] (Name ''c'') AUTO, QueryPart '' '' (Name ''b'') AUTO,
        QueryPart '' '' (Name ''a'') AUTO, QueryPart [] (Index 0) AUTO]
       (PyMapping [(''a'', 1 :: int), (''b'', 2), (''c'', 3)]) (Some [''c'', ''b'', ''a''])
     = Inr [3, 2, 1]"
proof -
  have h1: "query2pg_nocache ''SELECT %(a)s'' ascii
     = Inr (''SELECT $1'', [AUTO], Some [''a''],
            [QueryPart ''SELECT '' (Name ''a'') AUTO, QueryPart [] (Index 0) AUTO])"
    by (simp add: query2pg_nocache_def scan_defs marker_def digit_char_def)
  have h2: "query2pg_client_nocache ''%(c)s %(b)s %(a)s'' ascii
     = Inr (''%s %s %s'', Some [''c'', ''b'', ''a''],
            [QueryPart [] (Name ''c'') AUTO, QueryPart '' '' (Name ''b'') AUTO,
             QueryPart '' '' (Name ''a'') AUTO, QueryPart [] (Index 0) AUTO])"
    by (simp add: query2pg_client_nocache_def scan_defs)
  have s: "sort [''c'', ''a''] = [''a'', ''c'']" by simp
  show ?thesis
    using h1 h2
      validate_mapping[OF disjI1, OF h1, of "[] :: (pystr \<times> int) list"]
      validate_mapping[OF disjI2, OF h2, of "[(''b'', 5 :: int)]"]
      validate_mapping[OF disjI2, OF h2, of "[(''a'', 1 :: int), (''b'', 2), (''c'', 3)]"]
    by (simp add: s)
qed

subsection \<open>The cache policy\<close>

text \<open>
  C9. The tables start empty and stay sound: every entry holds what the uncached function
  returns for its key. For sound tables: the cached functions return what
  \<^verbatim>\<open>_query2pg_nocache\<close> and \<^verbatim>\<open>_query2pg_client_nocache\<close> return, leave the tables sound, and
  each leaves the other's table alone; \<^verbatim>\<open>convert\<close> with parameters of length \<open>n\<close> gives the
  object that parsing afresh gives, and goes through the table of its variant exactly when
  the query has at most 4096 bytes and \<open>n\<close> is at most 50, leaving both tables as they are
  otherwise; after a cached call that succeeds the table holds the result under the query
  and the encoding.
\<close>

theorem cache_policy:
  assumes "caches_sound cs"
  shows "caches_sound no_caches
     \<and> fst (query2pg cs b enc) = query2pg_nocache b enc
     \<and> fst (query2pg_client cs b enc) = query2pg_client_nocache b enc
     \<and> caches_sound (snd (query2pg cs b enc))
     \<and> caches_sound (snd (query2pg_client cs b enc))
     \<and> client_cache (snd (query2pg cs b enc)) = client_cache cs
     \<and> pg_cache (snd (query2pg_client cs b enc)) = pg_cache cs
     \<and> (bquery_of self q = Inr bq \<and> py_len vs = Inr n \<longrightarrow>
          fst (convert cs self q (Some vs)) =
            (case query2pg_nocache bq (encoding self) of
               Inl e \<Rightarrow> Inl e
             | Inr (rq, fs, ord, ps) \<Rightarrow>
                 dump (self\<lparr>query := rq, want_formats := Some fs, order := ord,
                            parts := Some ps\<rparr>) (Some vs))
          \<and> snd (convert cs self q (Some vs)) =
            (if length bq \<le> 4096 \<and> n \<le> 50 then snd (query2pg cs bq (encoding self)) else cs))
     \<and> (bquery_of cself q' = Inr bq' \<and> py_len vs' = Inr n' \<longrightarrow>
          fst (client_convert cs cself q' (Some vs')) =
            (case query2pg_client_nocache bq' (encoding cself) of
               Inl e \<Rightarrow> Inl e
             | Inr (t, ord, ps) \<Rightarrow>
                 client_dump (cself\<lparr>template := Some t, order := ord, parts := Some ps\<rparr>)
                   (Some vs'))
          \<and> snd (client_convert cs cself q' (Some vs')) =
            (if length bq' \<le> 4096 \<and> n' \<le> 50 then snd (query2pg_client cs bq' (encoding cself))
             else cs))
     \<and> (\<forall>r. query2pg_nocache b enc = Inr r \<longrightarrow>
            map_of (pg_cache (snd (query2pg cs b enc))) (b, enc) = Some r)
     \<and> (\<forall>r. query2pg_client_nocache b enc = Inr r \<longrightarrow>
            map_of (client_cache (snd (query2pg_client cs b enc))) (b, enc) = Some r)"
proof -
  note s1 = query2pg_sound[OF assms, of b enc]
  note s2 = query2pg_client_sound[OF assms, of b enc]
  have c8: "bquery_of self q = Inr bq \<and> py_len vs = Inr n \<longrightarrow>
          fst (convert cs self q (Some vs)) =
            (case query2pg_nocache bq (encoding self) of
               Inl e \<Rightarrow> Inl e
             | Inr (rq, fs, ord, ps) \<Rightarrow>
                 dump (self\<lparr>query := rq, want_formats := Some fs, order := ord,
                            parts := Some ps\<rparr>) (Some vs))
          \<and> snd (convert cs self q (Some vs)) =
            (if length bq \<le> 4096 \<and> n \<le> 50 then snd (query2pg cs bq (encoding self)) else cs)"
    using convert_cached[OF assms, of self q bq vs n] by blast
  have c9: "bquery_of cself q' = Inr bq' \<and> py_len vs' = Inr n' \<longrightarrow>
          fst (client_convert cs cself q' (Some vs')) =
            (case query2pg_client_nocache bq' (encoding cself) of
               Inl e \<Rightarrow> Inl e
             | Inr (t, ord, ps) \<Rightarrow>
                 client_dump (cself\<lparr>template := Some t, order := ord, parts := Some ps\<rparr>)
                   (Some vs'))
          \<and> snd (client_convert cs cself q' (Some vs')) =
            (if length bq' \<le> 4096 \<and> n' \<le> 50 then snd (query2pg_client cs bq' (encoding cself))
             else cs)"
    using client_convert_cached[OF assms, of cself q' bq' vs' n'] by blast
  have c10: "\<forall>r. query2pg_nocache b enc = Inr r \<longrightarrow>
            map_of (pg_cache (snd (query2pg cs b enc))) (b, enc) = Some r"
    using query2pg_stores[OF assms] by blast
  have c11: "\<forall>r. query2pg_client_nocache b enc = Inr r \<longrightarrow>
            map_of (client_cache (snd (query2pg_client cs b enc))) (b, enc) = Some r"
    using query2pg_client_stores[OF assms] by blast
  show ?thesis
    by (intro conjI) (fact caches_sound_empty s1 s2 c8 c9 c10 c11)+
qed

text \<open>
  From empty tables: one parameter goes through the table, fifty-one pass it by.
\<close>

theorem cache_policy_witness:
  "caches_sound no_caches
   \<and> fst (query2pg no_caches ''a = %s'' ascii)
     = Inr (''a = $1'', [AUTO], None,
            [QueryPart ''a = '' (Index 0) AUTO, QueryPart [] (Index 0) AUTO])
   \<and> map_of (pg_cache (snd (query2pg no_caches ''a = %s'' ascii))) (''a = %s'', ascii)
     = Some (''a = $1'', [AUTO], None,
            [QueryPart ''a = '' (Index 0) AUTO, QueryPart [] (Index 0) AUTO])
   \<and> client_cache (snd (query2pg no_caches ''a = %s'' ascii)) = []
   \<and> snd (convert no_caches (init stub_tx) (QBytes ''a = %s'') (Some (PySequence [Some 7])))
     = snd (query2pg no_caches ''a = %s'' ascii)
   \<and> snd (convert no_caches (init stub_tx) (QBytes ''a = %s'')
          (Some (PySequence (replicate 51 (Some 7)))))
     = no_caches
   \<and> snd (client_convert no_caches (client_init stub_tx) (QBytes ''a = %s'')
          (Some (PySequence [Some 7])))
     = snd (query2pg_client no_caches ''a = %s'' ascii)
   \<and> pg_cache (snd (query2pg_client no_caches ''a = %s'' ascii)) = []"
proof -
  have h: "caches_sound no_caches"
    by (simp add: caches_sound_def cache_sound_def no_caches_def)
  have p: "query2pg_nocache ''a = %s'' ascii
     = Inr (''a = $1'', [AUTO], None,
            [QueryPart ''a = '' (Index 0) AUTO, QueryPart [] (Index 0) AUTO])"
    by (simp add: query2pg_nocache_def scan_defs marker_def digit_char_def)
  have b1: "bquery_of (init stub_tx) (QBytes ''a = %s'') = Inr ''a = %s''"
    by (simp add: bquery_of_def)
  have b2: "bquery_of (client_init stub_tx) (QBytes ''a = %s'') = Inr ''a = %s''"
    by (simp add: bquery_of_def)
  have e1: "encoding (init stub_tx) = ascii"
    by (simp add: init_def stub_tx_def)
  have e2: "encoding (client_init stub_tx) = ascii"
    by (simp add: client_init_def init_def stub_tx_def PostgresQuery.extend_def)
  have l1: "py_len (PySequence [Some (7 :: int)]) = Inr 1" by simp
  have l2: "py_len (PySequence (replicate 51 (Some (7 :: int)))) = Inr 51" by simp
  have n: "pg_cache no_caches = []" "client_cache no_caches = []"
    by (simp_all add: no_caches_def)
  from cache_policy[OF h, of "''a = %s''" ascii "init stub_tx" "QBytes ''a = %s''" "''a = %s''"
      "PySequence [Some 7]" 1 "client_init stub_tx" "QBytes ''a = %s''" "''a = %s''"
      "PySequence [Some 7]" 1]
    cache_policy[OF h, of "''a = %s''" ascii "init stub_tx" "QBytes ''a = %s''" "''a = %s''"
      "PySequence (replicate 51 (Some 7))" 51 "client_init stub_tx" "QBytes ''a = %s''" "''a = %s''"
      "PySequence [Some 7]" 1]
    p b1 b2 l1 l2
  show ?thesis by (simp add: e1 e2 n)
qed

subsection \<open>Conversion without parameters\<close>

text \<open>
  C10. When \<^verbatim>\<open>convert\<close> is called with \<open>None\<close> for the parameters, the bytes of the query
  become the final query as they are: the result is never an error, whatever the bytes hold,
  the parts and the caches are not touched, and \<open>params\<close> is \<open>None\<close>, \<open>types\<close> the empty tuple
  and \<open>formats\<close> \<open>None\<close>. The server-bind object sets the three; the client-bind object sets
  \<open>params\<close> and has never set the other two since \<^verbatim>\<open>__init__\<close>.
\<close>

theorem convert_without_params:
  "(bquery_of self q = Inr b \<longrightarrow>
      convert cs self q None =
        (Inr (self\<lparr>query := b, want_formats := None, order := None,
                  params := None, types := [], formats := None\<rparr>), cs))
   \<and> (client_reachable cself \<and> bquery_of cself q' = Inr b' \<longrightarrow>
      client_convert cs cself q' None =
        (Inr (cself\<lparr>query := b', order := None, params := None\<rparr>), cs)
      \<and> types (cself\<lparr>query := b', order := None, params := None\<rparr>) = []
      \<and> formats (cself\<lparr>query := b', order := None, params := None\<rparr>) = None)"
  by (auto simp: convert_def dump_def client_convert_def client_dump_def
      dest: client_reachable_types)

text \<open>A query the scanner refuses passes unchanged through both objects.\<close>

theorem convert_without_params_witness:
  "split_query ''50% off %('' ascii True = Inl IncompletePercent
   \<and> convert no_caches (init stub_tx) (QBytes ''50% off %('') None =
       (Inr ((init stub_tx)\<lparr>query := ''50% off %('', want_formats := None, order := None,
                  params := None, types := [], formats := None\<rparr>), no_caches)
   \<and> client_convert no_caches (client_init stub_tx) (QBytes ''50% off %('') None =
       (Inr ((client_init stub_tx)\<lparr>query := ''50% off %('', order := None, params := None\<rparr>),
        no_caches)
   \<and> types ((client_init stub_tx)\<lparr>query := ''50% off %('', order := None, params := None\<rparr>) = []
   \<and> formats ((client_init stub_tx)\<lparr>query := ''50% off %('', order := None, params := None\<rparr>)
       = None"
proof -
  have h: "split_query ''50% off %('' ascii True = Inl IncompletePercent"
    by (simp add: scan_defs)
  have b1: "bquery_of (init stub_tx) (QBytes ''50% off %('') = Inr ''50% off %(''"
    by (simp add: bquery_of_def)
  have b2: "bquery_of (client_init stub_tx) (QBytes ''50% off %('') = Inr ''50% off %(''"
    by (simp add: bquery_of_def)
  have r: "client_reachable (client_init stub_tx)" by (rule reach_init)
  from convert_without_params[of "init stub_tx" "QBytes ''50% off %(''" "''50% off %(''" no_caches
      "client_init stub_tx" "QBytes ''50% off %(''" "''50% off %(''"] h b1 b2 r
  show ?thesis by simp
qed

end
